theory Spec2Isabelle
  imports Main "HOL-Library.Sublist"
begin

section \<open>Python values used by the two pipelines\<close>

text \<open>
  The repository holds two scripts, \<^verbatim>\<open>gen_ai_task_2.py\<close> (reviews) and
  \<^verbatim>\<open>geni_ai_task_1.py\<close> (emails). A Python \<^verbatim>\<open>str\<close> is modelled as a
  \<^typ>\<open>string\<close>: one \<^typ>\<open>char\<close> per code point, so the model covers the code points
  below 256. The only operation of the scripts that looks at the value of a code point
  other than by equality is \<^verbatim>\<open>str.strip()\<close>, through the whitespace test.

  Every exception the scripts can raise is a value of \<open>error\<close>; a function that may
  raise returns \<open>error + 'a\<close>, with \<open>Inl\<close> for the exception.
\<close>

datatype error =
    ValueError      \<comment> \<open>\<^verbatim>\<open>str.split\<close> with an empty separator\<close>
  | IndexError      \<comment> \<open>list index out of range\<close>
  | IOError         \<comment> \<open>\<^verbatim>\<open>open\<close> failed\<close>
  | RemoteError string  \<comment> \<open>whatever \<^verbatim>\<open>send_message\<close> raised\<close>

subsection \<open>\<^verbatim>\<open>str\<close> methods\<close>

text \<open>\<^verbatim>\<open>str.isspace\<close> on one code point below 256: TAB, LF, VT, FF, CR, FS, GS, RS, US,
  SPACE, NEL (0x85) and NBSP (0xA0).\<close>

definition isspace :: "char \<Rightarrow> bool" where
  "isspace c = (c \<in> set [CHR 0x09, CHR 0x0A, CHR 0x0B, CHR 0x0C, CHR 0x0D,
                          CHR 0x1C, CHR 0x1D, CHR 0x1E, CHR 0x1F, CHR 0x20,
                          CHR 0x85, CHR 0xA0])"

text \<open>\<^verbatim>\<open>s.strip()\<close>: drop the whitespace at both ends.\<close>

definition strip :: "string \<Rightarrow> string" where
  "strip s = rev (dropWhile isspace (rev (dropWhile isspace s)))"

text \<open>\<^verbatim>\<open>s.startswith(p)\<close>.\<close>

definition startswith :: "string \<Rightarrow> string \<Rightarrow> bool" where
  "startswith s p = prefix p s"

text \<open>\<^verbatim>\<open>s.find(sub)\<close>: the lowest index at which \<open>sub\<close> occurs in \<open>s\<close>, \<open>None\<close>
  for Python's \<open>-1\<close>.\<close>

fun str_find :: "string \<Rightarrow> string \<Rightarrow> nat option" where
  "str_find [] sub = (if sub = [] then Some 0 else None)"
| "str_find (c # cs) sub =
     (if prefix sub (c # cs) then Some 0 else map_option Suc (str_find cs sub))"

lemma str_find_bound:
  "str_find s sub = Some i \<Longrightarrow> i + length sub \<le> length s"
proof (induction s arbitrary: i)
  case Nil
  then show ?case by (simp split: if_splits)
next
  case (Cons c cs)
  show ?case
  proof (cases "prefix sub (c # cs)")
    case True
    with Cons.prems have "i = 0" by simp
    with prefix_length_le [OF True] show ?thesis by simp
  next
    case False
    with Cons.prems obtain j where j: "str_find cs sub = Some j" "i = Suc j"
      by auto
    from Cons.IH [OF j(1)] j(2) show ?thesis by simp
  qed
qed

text \<open>
  \<^verbatim>\<open>s.split(sep)\<close> for a separator that is not empty: cut at the leftmost occurrence,
  go on behind it. The first branch is never taken by \<open>str_split\<close> below, which raises
  before; it makes the recursion total.
\<close>

function split_sep :: "string \<Rightarrow> string \<Rightarrow> string list" where
  "split_sep s sep =
     (if sep = [] then [s]
      else case str_find s sep of
             None \<Rightarrow> [s]
           | Some i \<Rightarrow> take i s # split_sep (drop (i + length sep) s) sep)"
  by pat_completeness auto
termination
proof (relation "measure (\<lambda>(s, sep). length s)")
  show "wf (measure (\<lambda>(s, sep). length s))" by simp
next
  fix s sep :: string and i
  assume "sep \<noteq> []" and "str_find s sep = Some i"
  then have "0 < length sep" and "i + length sep \<le> length s"
    by (simp_all add: str_find_bound)
  then have "length s - (i + length sep) < length s"
    by arith
  then show "((drop (i + length sep) s, sep), (s, sep)) \<in> measure (\<lambda>(s, sep). length s)"
    by simp
qed

declare split_sep.simps [simp del]

definition str_split :: "string \<Rightarrow> string \<Rightarrow> error + string list" where
  "str_split s sep = (if sep = [] then Inl ValueError else Inr (split_sep s sep))"

text \<open>\<^verbatim>\<open>s.split(sep, 1)\<close>: at most one cut.\<close>

definition str_split1 :: "string \<Rightarrow> string \<Rightarrow> error + string list" where
  "str_split1 s sep =
     (if sep = [] then Inl ValueError
      else case str_find s sep of
             None \<Rightarrow> Inr [s]
           | Some i \<Rightarrow> Inr [take i s, drop (i + length sep) s])"

text \<open>\<^verbatim>\<open>xs[i]\<close> for an index that is not negative.\<close>

definition index :: "'a list \<Rightarrow> nat \<Rightarrow> error + 'a" where
  "index xs i = (if i < length xs then Inr (xs ! i) else Inl IndexError)"

section \<open>Field extraction\<close>

text \<open>The expression \<^verbatim>\<open>line.split(":", 1)[1].strip()\<close> of both extractors.\<close>

definition after_colon :: "string \<Rightarrow> error + string" where
  "after_colon line =
     (case str_split1 line '':'' of
        Inl e \<Rightarrow> Inl e
      | Inr parts \<Rightarrow> (case index parts 1 of Inl e \<Rightarrow> Inl e | Inr v \<Rightarrow> Inr (strip v)))"

subsection \<open>\<^verbatim>\<open>extract_review_info\<close> (gen\_ai\_task\_2.py)\<close>

text \<open>The \<^verbatim>\<open>for line in ...\<close> loop, with the two variables it assigns as its state.\<close>

fun review_lines :: "string list \<Rightarrow> string \<times> string \<Rightarrow> error + string \<times> string" where
  "review_lines [] (product, review_text) = Inr (product, review_text)"
| "review_lines (line # lines) (product, review_text) =
     (if startswith line ''Product:'' then
        (case after_colon line of
           Inl e \<Rightarrow> Inl e
         | Inr v \<Rightarrow> review_lines lines (v, review_text))
      else if startswith line ''Review:'' then
        (case after_colon line of
           Inl e \<Rightarrow> Inl e
         | Inr v \<Rightarrow> review_lines lines (product, v))
      else review_lines lines (product, review_text))"

definition extract_review_info :: "string \<Rightarrow> error + string \<times> string" where
  "extract_review_info review =
     (case str_split review [CHR 0x0A] of
        Inl e \<Rightarrow> Inl e
      | Inr lines \<Rightarrow> review_lines lines ('''', ''''))"

subsection \<open>\<^verbatim>\<open>extract_email_info\<close> (geni\_ai\_task\_1.py)\<close>

text \<open>\<^verbatim>\<open>line.startswith(("Subject:", "From:", "To:"))\<close>: a tuple of prefixes.\<close>

definition startswith_any :: "string \<Rightarrow> string list \<Rightarrow> bool" where
  "startswith_any s ps = list_ex (startswith s) ps"

fun email_lines ::
  "string list \<Rightarrow> string \<times> string \<times> string \<Rightarrow> error + string \<times> string \<times> string" where
  "email_lines [] (sender, receiver, body) = Inr (sender, receiver, body)"
| "email_lines (line # lines) (sender, receiver, body) =
     (if startswith line ''From:'' then
        (case after_colon line of
           Inl e \<Rightarrow> Inl e
         | Inr v \<Rightarrow> email_lines lines (v, receiver, body))
      else if startswith line ''To:'' then
        (case after_colon line of
           Inl e \<Rightarrow> Inl e
         | Inr v \<Rightarrow> email_lines lines (sender, v, body))
      else if \<not> startswith_any line [''Subject:'', ''From:'', ''To:''] then
        email_lines lines (sender, receiver, body @ strip line @ '' '')
      else email_lines lines (sender, receiver, body))"

definition extract_email_info :: "string \<Rightarrow> error + string \<times> string \<times> string" where
  "extract_email_info email =
     (case str_split email [CHR 0x0A] of
        Inl e \<Rightarrow> Inl e
      | Inr lines \<Rightarrow>
          (case email_lines lines ('''', '''', '''') of
             Inl e \<Rightarrow> Inl e
           | Inr (sender, receiver, body) \<Rightarrow> Inr (sender, receiver, strip body)))"

section \<open>The world outside the scripts\<close>

text \<open>
  What a run does to its surroundings is recorded in order: a message sent on the chat
  session together with the text that came back, a message sent together with the error
  the call raised, a call of \<^verbatim>\<open>time.sleep\<close> with its argument, a file written. A file
  is the text that \<^verbatim>\<open>file.read()\<close> returns for it; \<open>writable\<close> says for which paths
  \<^verbatim>\<open>open(path, 'w')\<close> succeeds.
\<close>

datatype event = Sent string string | Raised string error | Slept nat | Wrote string

record world =
  files :: "string \<rightharpoonup> string"
  writable :: "string \<Rightarrow> bool"
  events :: "event list"

text \<open>
  The chat session is the remote model behind it: from the turns of the conversation so
  far (message, response) and the next message it gives the response text, or the error
  the call raises. The turns grow with every call, so any sequence of answers and
  failures of a sequential run is such a function.
\<close>

type_synonym chat_session = "(string \<times> string) list \<Rightarrow> string \<Rightarrow> error + string"

fun turn_of :: "event \<Rightarrow> (string \<times> string) list" where
  "turn_of (Sent msg text) = [(msg, text)]"
| "turn_of (Raised msg e) = []"
| "turn_of (Slept n) = []"
| "turn_of (Wrote path) = []"

definition turns :: "world \<Rightarrow> (string \<times> string) list" where
  "turns w = concat (map turn_of (events w))"

text \<open>\<^verbatim>\<open>chat_session.send_message(msg).text\<close>\<close>

definition send_message :: "chat_session \<Rightarrow> string \<Rightarrow> world \<Rightarrow> (error + string) \<times> world" where
  "send_message chat_session msg w =
     (case chat_session (turns w) msg of
        Inl e \<Rightarrow> (Inl e, w\<lparr>events := events w @ [Raised msg e]\<rparr>)
      | Inr text \<Rightarrow> (Inr text, w\<lparr>events := events w @ [Sent msg text]\<rparr>))"

text \<open>\<^verbatim>\<open>time.sleep(secs)\<close>\<close>

definition time_sleep :: "nat \<Rightarrow> world \<Rightarrow> world" where
  "time_sleep secs w = w\<lparr>events := events w @ [Slept secs]\<rparr>"

text \<open>\<^verbatim>\<open>open(path, 'r')\<close> followed by \<^verbatim>\<open>file.read()\<close>\<close>

definition read_file :: "string \<Rightarrow> world \<Rightarrow> error + string" where
  "read_file path w = (case files w path of None \<Rightarrow> Inl IOError | Some text \<Rightarrow> Inr text)"

subsection \<open>\<^verbatim>\<open>csv.writer\<close> with its default dialect\<close>

text \<open>
  A field is quoted when it contains the delimiter, the quote character or a character of
  the line terminator; inside the quotes a quote character is doubled. A row is its
  fields joined by commas and ended by CR LF; a row of one empty field is written as two
  quote characters.
\<close>

definition csv_field :: "string \<Rightarrow> string" where
  "csv_field f =
     (if list_ex (\<lambda>c. c \<in> set [CHR 0x2C, CHR 0x22, CHR 0x0D, CHR 0x0A]) f
      then [CHR 0x22] @ concat (map (\<lambda>c. if c = CHR 0x22 then [c, c] else [c]) f) @ [CHR 0x22]
      else f)"

fun join :: "string \<Rightarrow> string list \<Rightarrow> string" where
  "join sep [] = []"
| "join sep [x] = x"
| "join sep (x # y # ys) = x @ sep @ join sep (y # ys)"

definition writerow :: "string list \<Rightarrow> string" where
  "writerow row =
     (if row = [[]] then [CHR 0x22, CHR 0x22, CHR 0x0D, CHR 0x0A]
      else join [CHR 0x2C] (map csv_field row) @ [CHR 0x0D, CHR 0x0A])"

definition writerows :: "string list list \<Rightarrow> string" where
  "writerows data = concat (map writerow data)"

text \<open>The body shared by the two \<^verbatim>\<open>save_to_csv\<close>: open for writing (the file is
  replaced), write the header row, then the data rows.\<close>

definition write_csv ::
  "string list \<Rightarrow> string list list \<Rightarrow> string \<Rightarrow> world \<Rightarrow> (error + unit) \<times> world" where
  "write_csv header data csv_file w =
     (if writable w csv_file
      then (Inr (), w\<lparr>files := (files w)(csv_file \<mapsto> writerow header @ writerows data),
                       events := events w @ [Wrote csv_file]\<rparr>)
      else (Inl IOError, w))"

section \<open>The review pipeline (gen\_ai\_task\_2.py)\<close>

definition review_delimiter :: string where
  "review_delimiter = ''---END OF REVIEW---''"

definition read_reviews :: "string \<Rightarrow> string \<Rightarrow> world \<Rightarrow> error + string list" where
  "read_reviews file_path delimiter w =
     (case read_file file_path w of
        Inl e \<Rightarrow> Inl e
      | Inr content \<Rightarrow>
          (case str_split content delimiter of
             Inl e \<Rightarrow> Inl e
           | Inr reviews \<Rightarrow> Inr (map strip (filter (\<lambda>review. strip review \<noteq> []) reviews))))"

text \<open>The three message templates (f-strings) of the review pipeline.\<close>

definition classify_prompt :: "string \<Rightarrow> string" where
  "classify_prompt review_text =
     ''Classify the sentiment of this review as Positive, Negative, or Neutral: '' @ review_text"

definition reply_prompt :: "string \<Rightarrow> string \<Rightarrow> string" where
  "reply_prompt sentiment review_text =
     ''Write a reply to this review based on the sentiment: '' @ sentiment
       @ ''. Review: '' @ review_text"

definition guess_prompt :: "string \<Rightarrow> string" where
  "guess_prompt review_text =
     ''Guess the product name based on this review in one word: '' @ review_text"

text \<open>The allow-list check inside \<^verbatim>\<open>analyze_sentiment\<close>.\<close>

definition normalize_sentiment :: "string \<Rightarrow> string" where
  "normalize_sentiment sentiment =
     (if sentiment \<notin> set [''Positive'', ''Negative'', ''Neutral''] then ''Neutral''
      else sentiment)"

definition analyze_sentiment ::
  "string \<Rightarrow> chat_session \<Rightarrow> world \<Rightarrow> (error + string \<times> string) \<times> world" where
  "analyze_sentiment review_text chat_session w =
     (case send_message chat_session (classify_prompt review_text) w of
        (Inl e, w1) \<Rightarrow> (Inl e, w1)
      | (Inr sentiment_response, w1) \<Rightarrow>
          (let sentiment = normalize_sentiment (strip sentiment_response) in
           case send_message chat_session (reply_prompt sentiment review_text) w1 of
             (Inl e, w2) \<Rightarrow> (Inl e, w2)
           | (Inr reply_response, w2) \<Rightarrow> (Inr (sentiment, strip reply_response), w2)))"

definition guess_product :: "string \<Rightarrow> chat_session \<Rightarrow> world \<Rightarrow> (error + string) \<times> world" where
  "guess_product review_text chat_session w =
     (case send_message chat_session (guess_prompt review_text) w of
        (Inl e, w1) \<Rightarrow> (Inl e, w1)
      | (Inr product_response, w1) \<Rightarrow> (Inr (strip product_response), w1))"

definition review_header :: "string list" where
  "review_header = [''Original Product'', ''Guessed Product'', ''Review'', ''Sentiment'', ''Reply'']"

definition save_to_csv_reviews ::
  "string list list \<Rightarrow> string \<Rightarrow> world \<Rightarrow> (error + unit) \<times> world" where
  "save_to_csv_reviews data csv_file w = write_csv review_header data csv_file w"

text \<open>The loop of \<^verbatim>\<open>process_reviews\<close>; \<open>data\<close> is the list the loop appends to.\<close>

fun review_rows ::
  "string list \<Rightarrow> chat_session \<Rightarrow> string list list \<Rightarrow> world
     \<Rightarrow> (error + string list list) \<times> world" where
  "review_rows [] chat_session data w = (Inr data, w)"
| "review_rows (review # reviews) chat_session data w =
     (case extract_review_info review of
        Inl e \<Rightarrow> (Inl e, w)
      | Inr (original_product, review_text) \<Rightarrow>
          (case guess_product review_text chat_session w of
             (Inl e, w1) \<Rightarrow> (Inl e, w1)
           | (Inr guessed_product, w1) \<Rightarrow>
               (case analyze_sentiment review_text chat_session w1 of
                  (Inl e, w2) \<Rightarrow> (Inl e, w2)
                | (Inr (sentiment, reply), w2) \<Rightarrow>
                    review_rows reviews chat_session
                      (data @ [[original_product, guessed_product, review_text, sentiment, reply]])
                      (time_sleep 2 w2))))"

definition process_reviews ::
  "string \<Rightarrow> string \<Rightarrow> chat_session \<Rightarrow> string \<Rightarrow> world \<Rightarrow> (error + unit) \<times> world" where
  "process_reviews file_path csv_file chat_session delimiter w =
     (case read_reviews file_path delimiter w of
        Inl e \<Rightarrow> (Inl e, w)
      | Inr reviews \<Rightarrow>
          (case review_rows reviews chat_session [] w of
             (Inl e, w1) \<Rightarrow> (Inl e, w1)
           | (Inr data, w1) \<Rightarrow> save_to_csv_reviews data csv_file w1))"

section \<open>The email pipeline (geni\_ai\_task\_1.py)\<close>

definition email_delimiter :: string where
  "email_delimiter = ''---END OF EMAIL---''"

definition read_emails :: "string \<Rightarrow> string \<Rightarrow> world \<Rightarrow> error + string list" where
  "read_emails file_path delimiter w =
     (case read_file file_path w of
        Inl e \<Rightarrow> Inl e
      | Inr content \<Rightarrow>
          (case str_split content delimiter of
             Inl e \<Rightarrow> Inl e
           | Inr emails \<Rightarrow> Inr (map strip (filter (\<lambda>email. strip email \<noteq> []) emails))))"

text \<open>The two message templates (f-strings) of the email pipeline.\<close>

definition summarize_prompt :: "string \<Rightarrow> string" where
  "summarize_prompt body = ''Summarize the following email: '' @ body"

definition translate_prompt :: "string \<Rightarrow> string" where
  "translate_prompt text = ''Translate the following text to Telugu: '' @ text"

definition summarize_email :: "string \<Rightarrow> chat_session \<Rightarrow> world \<Rightarrow> (error + string) \<times> world" where
  "summarize_email body chat_session w =
     send_message chat_session (summarize_prompt body) w"

definition translate_email :: "string \<Rightarrow> chat_session \<Rightarrow> world \<Rightarrow> (error + string) \<times> world" where
  "translate_email text chat_session w =
     send_message chat_session (translate_prompt text) w"

definition email_header :: "string list" where
  "email_header = [''Sender'', ''Receiver'', ''Summary (EN)'', ''Summary (DE)'']"

definition save_to_csv_emails ::
  "string list list \<Rightarrow> string \<Rightarrow> world \<Rightarrow> (error + unit) \<times> world" where
  "save_to_csv_emails data csv_file w = write_csv email_header data csv_file w"

text \<open>The loop of \<^verbatim>\<open>process_emails\<close>.\<close>

fun email_rows ::
  "string list \<Rightarrow> chat_session \<Rightarrow> string list list \<Rightarrow> world
     \<Rightarrow> (error + string list list) \<times> world" where
  "email_rows [] chat_session data w = (Inr data, w)"
| "email_rows (email # emails) chat_session data w =
     (case extract_email_info email of
        Inl e \<Rightarrow> (Inl e, w)
      | Inr (sender, receiver, body) \<Rightarrow>
          (case summarize_email body chat_session w of
             (Inl e, w1) \<Rightarrow> (Inl e, w1)
           | (Inr summary_en, w1) \<Rightarrow>
               (case translate_email summary_en chat_session w1 of
                  (Inl e, w2) \<Rightarrow> (Inl e, w2)
                | (Inr summary_de, w2) \<Rightarrow>
                    email_rows emails chat_session
                      (data @ [[sender, receiver, summary_en, summary_de]]) w2)))"

definition process_emails ::
  "string \<Rightarrow> string \<Rightarrow> chat_session \<Rightarrow> string \<Rightarrow> world \<Rightarrow> (error + unit) \<times> world" where
  "process_emails file_path csv_file chat_session delimiter w =
     (case read_emails file_path delimiter w of
        Inl e \<Rightarrow> (Inl e, w)
      | Inr emails \<Rightarrow>
          (case email_rows emails chat_session [] w of
             (Inl e, w1) \<Rightarrow> (Inl e, w1)
           | (Inr data, w1) \<Rightarrow> save_to_csv_emails data csv_file w1))"

section \<open>The vocabulary of the specification\<close>

text \<open>
  The pieces obtained by splitting \<open>content\<close> on every occurrence of \<open>sep\<close>, read from
  left to right: joined by \<open>sep\<close> they give \<open>content\<close> back, in every piece but the
  last no occurrence of \<open>sep\<close> starts (not even one that runs into the separator behind
  it), and the last piece contains none.
\<close>

definition splits_into :: "string \<Rightarrow> string \<Rightarrow> string list \<Rightarrow> bool" where
  "splits_into content sep pieces \<longleftrightarrow>
     pieces \<noteq> [] \<and> join sep pieces = content
     \<and> (\<forall>p \<in> set (butlast pieces). \<not> sublist sep (p @ butlast sep))
     \<and> \<not> sublist sep (last pieces)"


text \<open>Everything after the first colon of a line.\<close>

definition after_first_colon :: "string \<Rightarrow> string" where
  "after_first_colon line = tl (dropWhile (\<lambda>c. c \<noteq> CHR '':'') line)"

text \<open>The value of a prefixed field: of the lines that start with the prefix the last one
  counts, and gives what follows its first colon, trimmed; without such a line the field
  is the empty string.\<close>

definition last_field :: "string \<Rightarrow> string list \<Rightarrow> string" where
  "last_field p lines =
     (let matching = filter (\<lambda>line. startswith line p) lines
      in if matching = [] then [] else strip (after_first_colon (last matching)))"

text \<open>The lines of an email that go into its body.\<close>

definition is_body_line :: "string \<Rightarrow> bool" where
  "is_body_line line \<longleftrightarrow>
     \<not> startswith line ''Subject:'' \<and> \<not> startswith line ''From:'' \<and> \<not> startswith line ''To:''"

text \<open>The body when every body line is appended as it is, followed by a space, and the
  whole is trimmed.\<close>

definition body_of_lines :: "string list \<Rightarrow> string" where
  "body_of_lines lines =
     strip (concat (map (\<lambda>line. line @ '' '') (filter is_body_line lines)))"

text \<open>The body when every body line is trimmed before it is appended.\<close>

definition body_of_trimmed_lines :: "string list \<Rightarrow> string" where
  "body_of_trimmed_lines lines =
     strip (concat (map (\<lambda>line. strip line @ '' '') (filter is_body_line lines)))"

text \<open>
  Reading back a text that \<^verbatim>\<open>csv.writer\<close> has written: a field is either quoted, and
  then runs to the first quote character that is not doubled, or it runs to the next
  comma or line end; a row is its fields up to CR LF; the text is its rows.
\<close>

fun read_quoted :: "string \<Rightarrow> string \<times> string" where
  "read_quoted [] = ([], [])"
| "read_quoted (c # cs) =
     (if c \<noteq> CHR 0x22 then (case read_quoted cs of (f, rest) \<Rightarrow> (c # f, rest))
      else (case cs of
              [] \<Rightarrow> ([], [])
            | d # ds \<Rightarrow>
                if d = CHR 0x22 then (case read_quoted ds of (f, rest) \<Rightarrow> (d # f, rest))
                else ([], cs)))"

definition plain :: "char \<Rightarrow> bool" where
  "plain c = (c \<notin> set [CHR 0x2C, CHR 0x0D, CHR 0x0A])"

definition read_field :: "string \<Rightarrow> string \<times> string" where
  "read_field s =
     (case s of
        [] \<Rightarrow> ([], [])
      | c # cs \<Rightarrow>
          if c = CHR 0x22 then read_quoted cs
          else (takeWhile plain s, dropWhile plain s))"


lemma read_quoted_length: "length (snd (read_quoted s)) \<le> length s"
proof (induction s rule: read_quoted.induct)
  case 1
  show ?case by simp
next
  case (2 c cs)
  show ?case
  proof (cases "c \<noteq> CHR 0x22")
    case True
    obtain f rest where fr: "read_quoted cs = (f, rest)" by fastforce
    with "2.IH"(1) [OF True] have "length rest \<le> length cs" by simp
    with True fr show ?thesis by simp
  next
    case False
    show ?thesis
    proof (cases cs)
      case Nil
      with False show ?thesis by simp
    next
      case (Cons d ds)
      show ?thesis
      proof (cases "d = CHR 0x22")
        case dq: True
        obtain f rest where fr: "read_quoted ds = (f, rest)" by fastforce
        with "2.IH"(2) [OF False Cons dq] have "length rest \<le> length ds" by simp
        with False Cons dq fr show ?thesis by simp
      next
        case dn: False
        with False Cons show ?thesis by simp
      qed
    qed
  qed
qed

lemma read_field_length: "length (snd (read_field s)) \<le> length s"
proof (cases s)
  case Nil
  then show ?thesis by (simp add: read_field_def)
next
  case (Cons c cs)
  show ?thesis
  proof (cases "c = CHR 0x22")
    case True
    with Cons read_quoted_length [of cs] show ?thesis by (simp add: read_field_def)
  next
    case False
    have "length (dropWhile plain s) \<le> length s" by (rule length_dropWhile_le)
    with Cons False show ?thesis by (simp add: read_field_def)
  qed
qed


function read_row :: "string \<Rightarrow> string list \<times> string" where
  "read_row s =
     (case read_field s of
        (f, rest) \<Rightarrow>
          if rest \<noteq> [] \<and> hd rest = CHR 0x2C
          then (case read_row (tl rest) of (fs, r) \<Rightarrow> (f # fs, r))
          else if prefix [CHR 0x0D, CHR 0x0A] rest then ([f], drop 2 rest)
          else ([f], []))"
  by pat_completeness auto
termination
proof (relation "measure length")
  show "wf (measure length)" by simp
next
  fix s :: string and f rest
  assume fr: "(f, rest) = read_field s" and c: "rest \<noteq> [] \<and> hd rest = CHR 0x2C"
  from fr have "snd (read_field s) = rest" by (metis snd_conv)
  with read_field_length [of s] have "length rest \<le> length s" by simp
  with c have "length (tl rest) < length s" by (cases rest) simp_all
  then show "(tl rest, s) \<in> measure length" by simp
qed

declare read_row.simps [simp del]

lemma read_row_last:
  assumes "read_field s = (f, rest)" and "\<not> (rest \<noteq> [] \<and> hd rest = CHR 0x2C)"
  shows "read_row s = (if prefix [CHR 0x0D, CHR 0x0A] rest then ([f], drop 2 rest) else ([f], []))"
proof (cases rest)
  case Nil
  with assms(1) show ?thesis by (simp add: read_row.simps [of s])
next
  case (Cons c cs)
  with assms(2) have "c \<noteq> CHR 0x2C" by simp
  with assms(1) Cons show ?thesis by (simp add: read_row.simps [of s])
qed

lemma read_row_length: "length (snd (read_row s)) \<le> length s"
proof (induction s rule: read_row.induct)
  case (1 s)
  obtain f rest where fr: "read_field s = (f, rest)" by fastforce
  with read_field_length [of s] have le: "length rest \<le> length s" by simp
  show ?case
  proof (cases "rest \<noteq> [] \<and> hd rest = CHR 0x2C")
    case True
    obtain fs r where rr: "read_row (tl rest) = (fs, r)" by fastforce
    from "1.IH" [OF fr [symmetric] True] rr have "length r \<le> length (tl rest)" by simp
    with le have "length r \<le> length s" by simp
    moreover from fr True rr have "read_row s = (f # fs, r)"
      by (simp add: read_row.simps [of s])
    ultimately show ?thesis by simp
  next
    case False
    from read_row_last [OF fr False]
    have "read_row s = ([f], drop 2 rest) \<or> read_row s = ([f], [])"
      by (simp split: if_splits)
    with le show ?thesis by auto
  qed
qed

lemma read_row_shorter:
  assumes "s \<noteq> []"
  shows "length (snd (read_row s)) < length s"
proof -
  obtain f rest where fr: "read_field s = (f, rest)" by fastforce
  with read_field_length [of s] have le: "length rest \<le> length s" by simp
  show ?thesis
  proof (cases "rest \<noteq> [] \<and> hd rest = CHR 0x2C")
    case True
    obtain fs r where rr: "read_row (tl rest) = (fs, r)" by fastforce
    with read_row_length [of "tl rest"] have "length r \<le> length (tl rest)" by simp
    moreover from True have "length (tl rest) < length rest" by (cases rest) simp_all
    ultimately have "length r < length s" using le by simp
    moreover from fr True rr have "read_row s = (f # fs, r)"
      by (simp add: read_row.simps [of s])
    ultimately show ?thesis by simp
  next
    case False
    show ?thesis
    proof (cases "prefix [CHR 0x0D, CHR 0x0A] rest")
      case p: True
      then have "length (drop 2 rest) < length rest" by (auto simp: prefix_def)
      moreover from read_row_last [OF fr False] p have "read_row s = ([f], drop 2 rest)"
        by simp
      ultimately show ?thesis using le by simp
    next
      case np: False
      with read_row_last [OF fr False] have "read_row s = ([f], [])"
        by simp
      with assms show ?thesis by simp
    qed
  qed
qed

function csv_rows :: "string \<Rightarrow> string list list" where
  "csv_rows s =
     (if s = [] then [] else (case read_row s of (row, rest) \<Rightarrow> row # csv_rows rest))"
  by pat_completeness auto
termination
proof (relation "measure length")
  show "wf (measure length)" by simp
next
  fix s :: string and row rest
  assume ne: "s \<noteq> []" and rr: "(row, rest) = read_row s"
  from rr have "snd (read_row s) = rest" by (metis snd_conv)
  with read_row_shorter [OF ne] show "(rest, s) \<in> measure length" by simp
qed

declare csv_rows.simps [simp del]

text \<open>What kind of thing an event is, whatever was said.\<close>

datatype step = Call | Failure | Pause nat | Write

fun kind_of :: "event \<Rightarrow> step" where
  "kind_of (Sent msg text) = Call"
| "kind_of (Raised msg e) = Failure"
| "kind_of (Slept n) = Pause n"
| "kind_of (Wrote path) = Write"

text \<open>The events that a run has added to those of the world it started in.\<close>

definition added :: "world \<Rightarrow> world \<Rightarrow> event list" where
  "added w w' = drop (length (events w)) (events w')"

text \<open>
  One record of the review pipeline, given the three texts \<open>(g, c, r)\<close> that came back
  for it: the row it contributes and the events it causes. (Extraction never raises, so
  the first branch is never taken.)
\<close>

fun review_row :: "string \<Rightarrow> string \<times> string \<times> string \<Rightarrow> string list" where
  "review_row review (g, c, r) =
     (case extract_review_info review of
        Inl e \<Rightarrow> []
      | Inr (original_product, review_text) \<Rightarrow>
          [original_product, strip g, review_text, normalize_sentiment (strip c), strip r])"

fun review_events :: "string \<Rightarrow> string \<times> string \<times> string \<Rightarrow> event list" where
  "review_events review (g, c, r) =
     (case extract_review_info review of
        Inl e \<Rightarrow> []
      | Inr (original_product, review_text) \<Rightarrow>
          [Sent (guess_prompt review_text) g,
           Sent (classify_prompt review_text) c,
           Sent (reply_prompt (normalize_sentiment (strip c)) review_text) r,
           Slept 2])"

text \<open>The same for one record of the email pipeline and its two texts.\<close>

fun email_row :: "string \<Rightarrow> string \<times> string \<Rightarrow> string list" where
  "email_row email (summary_en, summary_de) =
     (case extract_email_info email of
        Inl e \<Rightarrow> []
      | Inr (sender, receiver, body) \<Rightarrow> [sender, receiver, summary_en, summary_de])"

fun email_events :: "string \<Rightarrow> string \<times> string \<Rightarrow> event list" where
  "email_events email (summary_en, summary_de) =
     (case extract_email_info email of
        Inl e \<Rightarrow> []
      | Inr (sender, receiver, body) \<Rightarrow>
          [Sent (summarize_prompt body) summary_en,
           Sent (translate_prompt summary_en) summary_de])"

text \<open>
  A run from \<open>w\<close> to \<open>w'\<close> that raised \<open>e\<close>: no file has changed, nothing was written,
  and a call that raised did raise \<open>e\<close> and was the last thing the run did.
\<close>

definition aborted :: "world \<Rightarrow> world \<Rightarrow> error \<Rightarrow> bool" where
  "aborted w w' e \<longleftrightarrow>
     files w' = files w
     \<and> (\<exists>evs. events w' = events w @ evs
            \<and> (\<forall>ev \<in> set evs. kind_of ev \<noteq> Write)
            \<and> (\<forall>m e'. Raised m e' \<in> set evs \<longrightarrow> e' = e \<and> last evs = Raised m e))"

section \<open>Example surroundings\<close>

text \<open>A world with one input file, every path writable, nothing done yet.\<close>

definition world_with :: "string \<Rightarrow> string \<Rightarrow> world" where
  "world_with path content =
     \<lparr>files = [path \<mapsto> content], writable = (\<lambda>p. True), events = []\<rparr>"

text \<open>A remote model that answers the calls of a run from a list, one answer per call,
  and raises once the list is used up.\<close>

definition scripted :: "string list \<Rightarrow> chat_session" where
  "scripted answers history msg =
     (if length history < length answers then Inr (answers ! length history)
      else Inl (RemoteError ''quota exceeded''))"

text \<open>The input file of the first scenario of the specification.\<close>

definition scenario_1 :: string where
  "scenario_1 = ''Product: Shoes\<newline>Review: Great fit---END OF REVIEW---''"

text \<open>A remote model that answers every call with the same text.\<close>

definition always :: "string \<Rightarrow> chat_session" where
  "always text history msg = Inr text"

text \<open>Input files with two and with five reviews, and with two emails.\<close>

definition two_reviews :: string where
  "two_reviews =
     ''Product: Shoes\<newline>Review: Great fit---END OF REVIEW---\<newline>Product: Hat\<newline>Review: Too small\<newline>---END OF REVIEW---\<newline>''"

definition five_reviews :: string where
  "five_reviews =
     ''Review: a---END OF REVIEW---Review: b---END OF REVIEW---Review: c---END OF REVIEW---Review: d---END OF REVIEW---Review: e''"

definition two_emails :: string where
  "two_emails =
     ''From: a@x.com\<newline>To: b@x.com\<newline>Subject: Hi\<newline>Thanks for the order.---END OF EMAIL---\<newline>From: c@x.com\<newline>See you.''"

text \<open>A world with one input file in which no path can be written.\<close>

definition read_only_world :: "string \<Rightarrow> string \<Rightarrow> world" where
  "read_only_world path content =
     \<lparr>files = [path \<mapsto> content], writable = (\<lambda>p. False), events = []\<rparr>"

section \<open>Facts about the string operations\<close>

subsection \<open>\<open>strip\<close>\<close>

lemma strip_decomp:
  "s = takeWhile isspace s @ strip s @ rev (takeWhile isspace (rev (dropWhile isspace s)))"
proof -
  let ?t = "dropWhile isspace s"
  have "strip s @ rev (takeWhile isspace (rev ?t))
          = rev (takeWhile isspace (rev ?t) @ dropWhile isspace (rev ?t))"
    by (simp only: strip_def rev_append)
  also have "\<dots> = rev (rev ?t)"
    by (simp only: takeWhile_dropWhile_id)
  also have "\<dots> = ?t"
    by simp
  finally have "?t = strip s @ rev (takeWhile isspace (rev ?t))"
    by (rule sym)
  moreover have "s = takeWhile isspace s @ ?t"
    by simp
  ultimately show ?thesis by simp
qed

lemma sublist_strip: "sublist (strip s) s"
  unfolding sublist_def using strip_decomp [of s] by blast

lemma strip_Nil [simp]: "strip [] = []"
  by (simp add: strip_def)

lemma strip_first: "strip s \<noteq> [] \<Longrightarrow> \<not> isspace (hd (strip s))"
proof -
  assume ne: "strip s \<noteq> []"
  let ?t = "dropWhile isspace s"
  have t: "?t = strip s @ rev (takeWhile isspace (rev ?t))"
    using strip_decomp [of s] by (metis takeWhile_dropWhile_id same_append_eq)
  with ne have "hd ?t = hd (strip s)" by (metis hd_append2)
  moreover from ne t have "?t \<noteq> []" by (metis Nil_is_append_conv)
  then have "\<not> isspace (hd ?t)" by (rule hd_dropWhile)
  ultimately show ?thesis by simp
qed

lemma strip_last: "strip s \<noteq> [] \<Longrightarrow> \<not> isspace (last (strip s))"
proof -
  assume ne: "strip s \<noteq> []"
  let ?u = "dropWhile isspace (rev (dropWhile isspace s))"
  from ne have "?u \<noteq> []" by (simp add: strip_def)
  then have "\<not> isspace (hd ?u)" by (rule hd_dropWhile)
  moreover have "last (strip s) = hd ?u"
    using \<open>?u \<noteq> []\<close> by (simp add: strip_def last_rev)
  ultimately show ?thesis by simp
qed

lemma strip_fixed:
  assumes "s = [] \<or> (\<not> isspace (hd s) \<and> \<not> isspace (last s))"
  shows "strip s = s"
proof (cases "s = []")
  case True
  then show ?thesis by simp
next
  case False
  with assms have h: "\<not> isspace (hd s)" and l: "\<not> isspace (last s)" by auto
  from False h have "dropWhile isspace s = s"
    by (simp add: dropWhile_eq_self_iff)
  moreover from False l have "dropWhile isspace (rev s) = rev s"
    by (simp add: dropWhile_eq_self_iff hd_rev)
  ultimately show ?thesis by (simp add: strip_def)
qed

lemma strip_idem: "strip (strip s) = strip s"
  by (rule strip_fixed) (use strip_first strip_last in blast)

subsection \<open>\<open>str_find\<close> and \<open>split_sep\<close>\<close>

lemma join_Cons: "ps \<noteq> [] \<Longrightarrow> join sep (p # ps) = p @ sep @ join sep ps"
  by (cases ps) simp_all

lemma str_find_None_iff: "str_find s sep = None \<longleftrightarrow> \<not> sublist sep s"
  by (induction s) (auto simp: sublist_Cons_right)

lemma str_find_prefix: "str_find s sep = Some i \<Longrightarrow> prefix sep (drop i s)"
proof (induction s arbitrary: i)
  case Nil
  then show ?case by (simp split: if_splits)
next
  case (Cons c cs)
  then show ?case by (auto split: if_splits)
qed

lemma str_find_cut:
  assumes "str_find s sep = Some i"
  shows "s = take i s @ sep @ drop (i + length sep) s"
proof -
  from str_find_prefix [OF assms] obtain zs where zs: "drop i s = sep @ zs"
    by (auto simp: prefix_def)
  then have "drop (length sep) (drop i s) = zs" by simp
  then have "zs = drop (i + length sep) s" by (simp add: add.commute)
  with zs have "drop i s = sep @ drop (i + length sep) s" by simp
  then have "take i s @ drop i s = take i s @ sep @ drop (i + length sep) s" by simp
  then show ?thesis by simp
qed

lemma not_sublist_butlast: "sep \<noteq> [] \<Longrightarrow> \<not> sublist sep (butlast sep)"
proof
  assume "sep \<noteq> []" and "sublist sep (butlast sep)"
  then have "length sep \<le> length (butlast sep)" using sublist_length_le by blast
  then have "length sep \<le> length sep - 1" by (simp only: length_butlast)
  moreover from \<open>sep \<noteq> []\<close> have "length sep \<noteq> 0" by simp
  ultimately show False by arith
qed

lemma prefix_butlast_sep: "prefix (p @ butlast sep) (p @ sep @ rest)"
proof -
  have "prefix (butlast sep) sep" by (rule prefixeq_butlast)
  then have "prefix (butlast sep) (sep @ rest)" by (rule prefix_prefix)
  then show ?thesis by simp
qed

lemma str_find_leftmost:
  assumes "sep \<noteq> []"
  shows "str_find s sep = Some i \<Longrightarrow> \<not> sublist sep (take i s @ butlast sep)"
proof (induction s arbitrary: i)
  case Nil
  with assms show ?case by (simp split: if_splits)
next
  case (Cons c cs)
  show ?case
  proof (cases "prefix sep (c # cs)")
    case True
    with Cons.prems have "i = 0" by simp
    with assms show ?thesis by (simp add: not_sublist_butlast)
  next
    case False
    with Cons.prems obtain j where j: "str_find cs sep = Some j" "i = Suc j"
      by auto
    from Cons.IH [OF j(1)] have ih: "\<not> sublist sep (take j cs @ butlast sep)" .
    have "\<not> prefix sep (c # take j cs @ butlast sep)"
    proof
      assume p: "prefix sep (c # take j cs @ butlast sep)"
      from str_find_cut [OF j(1)] have "cs = take j cs @ sep @ drop (j + length sep) cs" .
      with prefix_butlast_sep [of "take j cs" sep "drop (j + length sep) cs"]
      have "prefix (take j cs @ butlast sep) cs"
        by simp
      then have "prefix (c # take j cs @ butlast sep) (c # cs)" by simp
      with p have "prefix sep (c # cs)" by (rule prefix_order.trans)
      with False show False by simp
    qed
    with ih have "\<not> sublist sep (c # take j cs @ butlast sep)"
      by (simp add: sublist_Cons_right)
    with j(2) show ?thesis by simp
  qed
qed

lemma str_find_at:
  assumes "sep \<noteq> []"
  shows "\<not> sublist sep (p @ butlast sep) \<Longrightarrow> str_find (p @ sep @ rest) sep = Some (length p)"
proof (induction p)
  case Nil
  from assms obtain c cs where "sep @ rest = c # cs" by (cases sep) auto
  moreover have "prefix sep (sep @ rest)" by simp
  ultimately show ?case by simp
next
  case (Cons c p)
  from Cons.prems have np: "\<not> prefix sep (c # p @ butlast sep)"
    and ns: "\<not> sublist sep (p @ butlast sep)"
    by (simp_all add: sublist_Cons_right)
  have "\<not> prefix sep (c # p @ sep @ rest)"
  proof
    assume a: "prefix sep (c # p @ sep @ rest)"
    have b: "prefix (c # p @ butlast sep) (c # p @ sep @ rest)"
      using prefix_butlast_sep [of "c # p" sep rest] by simp
    have "length sep \<le> length (c # p @ butlast sep)"
      using assms by simp
    with a b have "prefix sep (c # p @ butlast sep)"
      by (rule prefix_length_prefix)
    with np show False by simp
  qed
  with Cons.IH [OF ns] show ?case by simp
qed


lemma splits_into_split_sep:
  "sep \<noteq> [] \<Longrightarrow> splits_into s sep (split_sep s sep)"
proof (induction s sep rule: split_sep.induct)
  case (1 s sep)
  from "1.prems" have sep: "sep \<noteq> []" .
  show ?case
  proof (cases "str_find s sep")
    case None
    then have "\<not> sublist sep s" by (simp add: str_find_None_iff)
    moreover from None sep have "split_sep s sep = [s]"
      by (simp add: split_sep.simps)
    ultimately show ?thesis by (simp add: splits_into_def)
  next
    case (Some i)
    let ?rest = "drop (i + length sep) s"
    from Some sep have eq: "split_sep s sep = take i s # split_sep ?rest sep"
      by (simp add: split_sep.simps)
    from "1.IH" [OF sep Some sep] have ih: "splits_into ?rest sep (split_sep ?rest sep)" .
    then have ne: "split_sep ?rest sep \<noteq> []" by (simp add: splits_into_def)
    have "join sep (take i s # split_sep ?rest sep) = take i s @ sep @ ?rest"
      using ih ne by (simp add: join_Cons splits_into_def)
    also have "\<dots> = s" by (rule str_find_cut [OF Some, symmetric])
    finally have j: "join sep (take i s # split_sep ?rest sep) = s" .
    from str_find_leftmost [OF sep Some]
    have l: "\<not> sublist sep (take i s @ butlast sep)" .
    from ih ne l j show ?thesis
      by (simp add: eq splits_into_def)
  qed
qed

lemma split_sep_unique:
  assumes "sep \<noteq> []"
  shows "splits_into s sep pieces \<Longrightarrow> split_sep s sep = pieces"
proof (induction pieces arbitrary: s)
  case Nil
  then show ?case by (simp add: splits_into_def)
next
  case (Cons p ps)
  show ?case
  proof (cases "ps = []")
    case True
    with Cons.prems have "s = p" and "\<not> sublist sep s"
      by (auto simp: splits_into_def)
    then have "str_find s sep = None" by (simp add: str_find_None_iff)
    with assms \<open>s = p\<close> True show ?thesis by (simp add: split_sep.simps)
  next
    case False
    let ?rest = "join sep ps"
    from Cons.prems False have s: "s = p @ sep @ ?rest"
      and left: "\<not> sublist sep (p @ butlast sep)"
      and rest: "splits_into ?rest sep ps"
      by (simp_all add: splits_into_def join_Cons)
    from str_find_at [OF assms left] s have f: "str_find s sep = Some (length p)"
      by simp
    from s have "take (length p) s = p" and "drop (length p + length sep) s = ?rest"
      by simp_all
    with f assms have "split_sep s sep = p # split_sep ?rest sep"
      by (simp add: split_sep.simps [of s])
    with Cons.IH [OF rest] show ?thesis by simp
  qed
qed

lemma not_sublist_split_sep:
  assumes "sep \<noteq> []" and "\<not> sublist sep s"
  shows "split_sep s sep = [s]"
  using assms by (simp add: split_sep.simps str_find_None_iff [symmetric])

lemma split_sep_pieces:
  assumes "sep \<noteq> []" and "p \<in> set (split_sep s sep)"
  shows "\<not> sublist sep p"
proof -
  from splits_into_split_sep [OF assms(1)] have sp: "splits_into s sep (split_sep s sep)" .
  let ?ps = "split_sep s sep"
  from sp have ne: "?ps \<noteq> []" by (simp add: splits_into_def)
  then have "?ps = butlast ?ps @ [last ?ps]" by simp
  with assms(2) have "p \<in> set (butlast ?ps) \<or> p = last ?ps"
    by (metis Un_iff empty_iff empty_set insert_iff list.simps(15) set_append)
  then show ?thesis
  proof
    assume "p \<in> set (butlast ?ps)"
    with sp have "\<not> sublist sep (p @ butlast sep)" by (simp add: splits_into_def)
    moreover have "sublist p (p @ butlast sep)" by simp
    ultimately show ?thesis using sublist_order.order_trans by blast
  next
    assume "p = last ?ps"
    with sp show ?thesis by (simp add: splits_into_def)
  qed
qed

section \<open>The record reader\<close>

lemma trim_then_drop:
  "map strip (filter (\<lambda>p. strip p \<noteq> []) pieces) = filter (\<lambda>p. p \<noteq> []) (map strip pieces)"
  by (induction pieces) simp_all

lemma read_reviews_eq:
  assumes "files w file_path = Some content" and "delimiter \<noteq> []"
  shows "read_reviews file_path delimiter w
           = Inr (filter (\<lambda>p. p \<noteq> []) (map strip (split_sep content delimiter)))"
  using assms by (simp add: read_reviews_def read_file_def str_split_def trim_then_drop)

lemma read_emails_eq:
  assumes "files w file_path = Some content" and "delimiter \<noteq> []"
  shows "read_emails file_path delimiter w
           = Inr (filter (\<lambda>p. p \<noteq> []) (map strip (split_sep content delimiter)))"
  using assms by (simp add: read_emails_def read_file_def str_split_def trim_then_drop)

lemma read_reviews_emails: "read_emails file_path delimiter w = read_reviews file_path delimiter w"
  by (simp add: read_emails_def read_reviews_def)

lemma read_reviews_Inr:
  assumes "read_reviews file_path delimiter w = Inr segments"
  shows "\<exists>content. files w file_path = Some content \<and> delimiter \<noteq> []
           \<and> segments = filter (\<lambda>p. p \<noteq> []) (map strip (split_sep content delimiter))"
  using assms
  by (auto simp: read_reviews_def read_file_def str_split_def trim_then_drop
      split: option.splits if_splits)

lemma segment_resplit:
  assumes sep: "delimiter \<noteq> []"
    and seg: "s \<in> set (filter (\<lambda>p. p \<noteq> []) (map strip (split_sep content delimiter)))"
  shows "filter (\<lambda>p. p \<noteq> []) (map strip (split_sep s delimiter)) = [s]"
proof -
  from seg obtain p where p: "p \<in> set (split_sep content delimiter)" "s = strip p" "s \<noteq> []"
    by auto
  from split_sep_pieces [OF sep p(1)] have "\<not> sublist delimiter p" .
  moreover have "sublist s p" using p(2) by (simp add: sublist_strip)
  ultimately have "\<not> sublist delimiter s"
    using sublist_order.order_trans by blast
  with sep have "split_sep s delimiter = [s]" by (rule not_sublist_split_sep)
  moreover from p(2) have "strip s = s" by (simp add: strip_idem)
  ultimately show ?thesis using p(3) by simp
qed

lemma read_empty_delimiter:
  assumes "files w file_path = Some content"
  shows "read_reviews file_path [] w = Inl ValueError"
    and "read_emails file_path [] w = Inl ValueError"
  using assms by (simp_all add: read_reviews_def read_emails_def read_file_def str_split_def)

text \<open>
  Claim C5, as amended. For every file content and every delimiter that is not empty, the
  record reader (\<^verbatim>\<open>read_reviews\<close> and \<^verbatim>\<open>read_emails\<close> alike) returns the pieces obtained
  by splitting the content on every occurrence of the delimiter, each trimmed, without
  those that are empty after trimming, in order. Such a splitting exists, and whichever
  splitting is taken the reader returns its trimmed, non-empty pieces; no error is raised.
  For every file content and the empty delimiter the reader raises \<^verbatim>\<open>ValueError\<close>.
\<close>

theorem record_reader_splits:
  assumes "files w file_path = Some content"
  shows "(delimiter \<noteq> [] \<longrightarrow>
           (\<exists>pieces. splits_into content delimiter pieces)
         \<and> (\<forall>pieces. splits_into content delimiter pieces \<longrightarrow>
               read_reviews file_path delimiter w
                 = Inr (filter (\<lambda>p. p \<noteq> []) (map strip pieces))
             \<and> read_emails file_path delimiter w
                 = Inr (filter (\<lambda>p. p \<noteq> []) (map strip pieces))))
     \<and> (delimiter = [] \<longrightarrow>
           read_reviews file_path delimiter w = Inl ValueError
         \<and> read_emails file_path delimiter w = Inl ValueError)"
proof (intro conjI allI impI)
  assume sep: "delimiter \<noteq> []"
  from splits_into_split_sep [OF sep]
  show "\<exists>pieces. splits_into content delimiter pieces" by blast
  fix pieces
  assume "splits_into content delimiter pieces"
  from split_sep_unique [OF sep this] have eq: "split_sep content delimiter = pieces" .
  from read_reviews_eq [OF assms sep] eq
  show "read_reviews file_path delimiter w = Inr (filter (\<lambda>p. p \<noteq> []) (map strip pieces))"
    by simp
  from read_emails_eq [OF assms sep] eq
  show "read_emails file_path delimiter w = Inr (filter (\<lambda>p. p \<noteq> []) (map strip pieces))"
    by simp
next
  assume "delimiter = []"
  with read_empty_delimiter [OF assms]
  show "read_reviews file_path delimiter w = Inl ValueError"
    and "read_emails file_path delimiter w = Inl ValueError"
    by simp_all
qed

theorem record_reader_splits_witness:
  "files (world_with ''reviews.txt'' scenario_1) ''reviews.txt'' = Some scenario_1
   \<and> review_delimiter \<noteq> []
   \<and> splits_into scenario_1 review_delimiter [''Product: Shoes\<newline>Review: Great fit'', '''']
   \<and> read_reviews ''reviews.txt'' review_delimiter (world_with ''reviews.txt'' scenario_1)
        = Inr [''Product: Shoes\<newline>Review: Great fit'']
   \<and> read_reviews ''reviews.txt'' [] (world_with ''reviews.txt'' scenario_1) = Inl ValueError
   \<and> read_emails ''reviews.txt'' [] (world_with ''reviews.txt'' scenario_1) = Inl ValueError"
proof -
  have f: "files (world_with ''reviews.txt'' scenario_1) ''reviews.txt'' = Some scenario_1"
    by (simp add: world_with_def)
  have d: "review_delimiter \<noteq> []"
    by (simp add: review_delimiter_def)
  have s: "splits_into scenario_1 review_delimiter [''Product: Shoes\<newline>Review: Great fit'', '''']"
    by code_simp
  from record_reader_splits
         [OF f, THEN conjunct1, THEN mp, OF d, THEN conjunct2, rule_format, OF s, THEN conjunct1]
  have "read_reviews ''reviews.txt'' review_delimiter (world_with ''reviews.txt'' scenario_1)
        = Inr (filter (\<lambda>p. p \<noteq> []) (map strip [''Product: Shoes\<newline>Review: Great fit'', '''']))" .
  also have "filter (\<lambda>p. p \<noteq> []) (map strip [''Product: Shoes\<newline>Review: Great fit'', ''''])
        = [''Product: Shoes\<newline>Review: Great fit'']"
    by (simp add: strip_def isspace_def)
  finally have r: "read_reviews ''reviews.txt'' review_delimiter (world_with ''reviews.txt'' scenario_1)
        = Inr [''Product: Shoes\<newline>Review: Great fit'']" .
  note e = record_reader_splits [OF f, where delimiter = "[]", THEN conjunct2, THEN mp, OF refl]
  from f d s r e [THEN conjunct1] e [THEN conjunct2] show ?thesis by (intro conjI)
qed

text \<open>
  Claim C5 as stated covers every delimiter string. With the empty delimiter
  \<^verbatim>\<open>str.split\<close> raises \<^verbatim>\<open>ValueError\<close> and the reader returns nothing.
\<close>

theorem record_reader_empty_delimiter:
  "read_reviews ''reviews.txt'' [] (world_with ''reviews.txt'' ''a'') = Inl ValueError
   \<and> read_emails ''email.txt'' [] (world_with ''email.txt'' ''a'') = Inl ValueError"
  by (simp add: read_reviews_def read_emails_def read_file_def world_with_def str_split_def)

text \<open>
  Claim C6. Splitting and trimming is idempotent: for every segment \<open>s\<close> that the record
  reader produces with delimiter \<open>d\<close>, the reader applied to a file holding \<open>s\<close>, with the
  same delimiter, returns the one-element list \<open>[s]\<close>.
\<close>

theorem resplit_segment_single:
  assumes "read_reviews file_path delimiter w = Inr segments
           \<or> read_emails file_path delimiter w = Inr segments"
    and "s \<in> set segments"
  shows "read_reviews path (delimiter) (w\<lparr>files := (files w)(path \<mapsto> s)\<rparr>) = Inr [s]
       \<and> read_emails path (delimiter) (w\<lparr>files := (files w)(path \<mapsto> s)\<rparr>) = Inr [s]"
proof -
  from assms(1) have "read_reviews file_path delimiter w = Inr segments"
    by (simp add: read_reviews_emails)
  from read_reviews_Inr [OF this] obtain content where
    c: "delimiter \<noteq> []"
       "segments = filter (\<lambda>p. p \<noteq> []) (map strip (split_sep content delimiter))"
    by blast
  let ?w = "w\<lparr>files := (files w)(path \<mapsto> s)\<rparr>"
  have f: "files ?w path = Some s" by simp
  from assms(2) c(2) have "s \<in> set (filter (\<lambda>p. p \<noteq> []) (map strip (split_sep content delimiter)))"
    by simp
  from segment_resplit [OF c(1) this] read_reviews_eq [OF f c(1)] read_emails_eq [OF f c(1)]
  show ?thesis by simp
qed
theorem resplit_segment_single_witness:
  "read_reviews ''reviews.txt'' review_delimiter (world_with ''reviews.txt'' scenario_1)
        = Inr [''Product: Shoes\<newline>Review: Great fit'']
   \<and> read_reviews ''again.txt'' review_delimiter
        ((world_with ''reviews.txt'' scenario_1)
           \<lparr>files := (files (world_with ''reviews.txt'' scenario_1))
                       (''again.txt'' \<mapsto> ''Product: Shoes\<newline>Review: Great fit'')\<rparr>)
        = Inr [''Product: Shoes\<newline>Review: Great fit'']"
proof -
  have r: "read_reviews ''reviews.txt'' review_delimiter (world_with ''reviews.txt'' scenario_1)
        = Inr [''Product: Shoes\<newline>Review: Great fit'']"
    by code_simp
  have m: "''Product: Shoes\<newline>Review: Great fit'' \<in> set [''Product: Shoes\<newline>Review: Great fit'']"
    by simp
  from resplit_segment_single [OF disjI1 [OF r] m, THEN conjunct1] r
  show ?thesis by (intro conjI)
qed

section \<open>Facts about field extraction\<close>

lemma str_find_char:
  "str_find s [c] = (if c \<in> set s then Some (length (takeWhile (\<lambda>x. x \<noteq> c) s)) else None)"
  by (induction s) auto

lemma after_colon_eq:
  assumes "CHR '':'' \<in> set line"
  shows "after_colon line = Inr (strip (after_first_colon line))"
proof -
  let ?i = "length (takeWhile (\<lambda>c. c \<noteq> CHR '':'') line)"
  from assms have "str_find line '':'' = Some ?i"
    by (simp add: str_find_char)
  then have "str_split1 line '':'' = Inr [take ?i line, drop (?i + 1) line]"
    by (simp add: str_split1_def)
  moreover have "drop (?i + 1) line = after_first_colon line"
    by (simp add: after_first_colon_def dropWhile_eq_drop drop_Suc tl_drop)
  ultimately show ?thesis
    by (simp add: after_colon_def index_def)
qed

lemma startswith_colon:
  assumes "startswith line p" and "CHR '':'' \<in> set p"
  shows "CHR '':'' \<in> set line"
  using assms set_mono_prefix unfolding startswith_def by blast

lemma after_colon_field:
  "startswith line ''Product:'' \<Longrightarrow> after_colon line = Inr (strip (after_first_colon line))"
  "startswith line ''Review:'' \<Longrightarrow> after_colon line = Inr (strip (after_first_colon line))"
  "startswith line ''From:'' \<Longrightarrow> after_colon line = Inr (strip (after_first_colon line))"
  "startswith line ''To:'' \<Longrightarrow> after_colon line = Inr (strip (after_first_colon line))"
  by (rule after_colon_eq, erule startswith_colon, simp)+

lemma review_prefixes_apart: "startswith line ''Product:'' \<Longrightarrow> \<not> startswith line ''Review:''"
  by (cases line) (simp_all add: startswith_def)

lemma email_prefixes_apart:
  "startswith line ''From:'' \<Longrightarrow> \<not> startswith line ''To:''"
  "startswith line ''From:'' \<Longrightarrow> \<not> startswith line ''Subject:''"
  "startswith line ''To:'' \<Longrightarrow> \<not> startswith line ''Subject:''"
  by (cases line; simp add: startswith_def)+

lemma last_field_Nil [simp]: "last_field p [] = []"
  by (simp add: last_field_def)

lemma last_field_Cons:
  "last_field p (line # lines) =
     (if filter (\<lambda>l. startswith l p) lines = []
      then (if startswith line p then strip (after_first_colon line) else [])
      else last_field p lines)"
  by (simp add: last_field_def Let_def)

lemma review_lines_fields:
  "review_lines lines (product, review_text) =
     Inr (if filter (\<lambda>l. startswith l ''Product:'') lines = [] then product
          else last_field ''Product:'' lines,
          if filter (\<lambda>l. startswith l ''Review:'') lines = [] then review_text
          else last_field ''Review:'' lines)"
proof (induction lines arbitrary: product review_text)
  case Nil
  show ?case by simp
next
  case (Cons line lines)
  consider (product) "startswith line ''Product:''"
    | (review) "\<not> startswith line ''Product:''" "startswith line ''Review:''"
    | (other) "\<not> startswith line ''Product:''" "\<not> startswith line ''Review:''"
    by blast
  then show ?case
  proof cases
    case product
    then have "\<not> startswith line ''Review:''" by (rule review_prefixes_apart)
    with product show ?thesis
      by (simp add: Cons.IH after_colon_field last_field_Cons)
  next
    case review
    then show ?thesis
      by (simp add: Cons.IH after_colon_field last_field_Cons)
  next
    case other
    then show ?thesis
      by (simp add: Cons.IH last_field_Cons)
  qed
qed


lemma email_lines_fields:
  "email_lines lines (sender, receiver, body) =
     Inr (if filter (\<lambda>l. startswith l ''From:'') lines = [] then sender
          else last_field ''From:'' lines,
          if filter (\<lambda>l. startswith l ''To:'') lines = [] then receiver
          else last_field ''To:'' lines,
          body @ concat (map (\<lambda>line. strip line @ '' '') (filter is_body_line lines)))"
proof (induction lines arbitrary: sender receiver body)
  case Nil
  show ?case by simp
next
  case (Cons line lines)
  consider (sender) "startswith line ''From:''"
    | (receiver) "\<not> startswith line ''From:''" "startswith line ''To:''"
    | (subject) "\<not> startswith line ''From:''" "\<not> startswith line ''To:''"
                "startswith line ''Subject:''"
    | (body) "\<not> startswith line ''From:''" "\<not> startswith line ''To:''"
             "\<not> startswith line ''Subject:''"
    by blast
  then show ?case
  proof cases
    case sender
    then have "\<not> startswith line ''To:''" by (rule email_prefixes_apart)
    with sender show ?thesis
      by (simp add: Cons.IH after_colon_field last_field_Cons is_body_line_def)
  next
    case receiver
    then show ?thesis
      by (simp add: Cons.IH after_colon_field last_field_Cons is_body_line_def)
  next
    case subject
    then show ?thesis
      by (simp add: Cons.IH last_field_Cons is_body_line_def startswith_any_def)
  next
    case body
    then show ?thesis
      by (simp add: Cons.IH last_field_Cons is_body_line_def startswith_any_def)
  qed
qed

lemma last_field_absent:
  "\<forall>l \<in> set lines. \<not> startswith l p \<Longrightarrow> last_field p lines = []"
  by (simp add: last_field_def Let_def filter_empty_conv)

lemma last_field_default:
  "(if filter (\<lambda>l. startswith l p) lines = [] then [] else last_field p lines)
     = last_field p lines"
  by (simp add: last_field_def)

lemma newline_lines:
  assumes "splits_into s [CHR 0x0A] lines"
  shows "str_split s [CHR 0x0A] = Inr lines"
  using split_sep_unique [OF _ assms] by (simp add: str_split_def)

lemma extract_review_info_eq:
  assumes "splits_into review [CHR 0x0A] lines"
  shows "extract_review_info review
           = Inr (last_field ''Product:'' lines, last_field ''Review:'' lines)"
  by (simp add: extract_review_info_def newline_lines [OF assms] review_lines_fields
      last_field_default)

lemma extract_email_info_eq:
  assumes "splits_into email [CHR 0x0A] lines"
  shows "extract_email_info email
           = Inr (last_field ''From:'' lines, last_field ''To:'' lines,
                  body_of_trimmed_lines lines)"
  by (simp add: extract_email_info_def newline_lines [OF assms] email_lines_fields
      last_field_default body_of_trimmed_lines_def)

lemma lines_exist: "\<exists>lines. splits_into s [CHR 0x0A] lines"
  using splits_into_split_sep [of "[CHR 0x0A]" s] by blast

lemma strip_blank: "\<forall>c \<in> set line. isspace c \<Longrightarrow> strip line = []"
proof -
  assume "\<forall>c \<in> set line. isspace c"
  then have d: "dropWhile isspace line = []" using dropWhile_eq_Nil_conv by blast
  show ?thesis by (simp only: strip_def d rev.simps dropWhile.simps)
qed

text \<open>
  Claim C3. For every record text, \<^verbatim>\<open>extract_review_info\<close> splits the record into lines
  and returns, without raising, as \<open>originalProduct\<close> what follows the first colon, trimmed,
  of the last line that starts with \<open>Product:\<close>, and as \<open>reviewText\<close> the same for
  \<open>Review:\<close>. Only the lines with the prefix enter a field, so the other lines are
  ignored. A record without a \<open>Product:\<close> line gives the empty string for
  \<open>originalProduct\<close>, and likewise for \<open>Review:\<close>.
\<close>

theorem extract_review_info_fields:
  "(\<exists>lines. splits_into review [CHR 0x0A] lines)
   \<and> (\<forall>lines. splits_into review [CHR 0x0A] lines \<longrightarrow>
         extract_review_info review
           = Inr (last_field ''Product:'' lines, last_field ''Review:'' lines)
         \<and> ((\<forall>l \<in> set lines. \<not> startswith l ''Product:'') \<longrightarrow>
               extract_review_info review = Inr ([], last_field ''Review:'' lines))
         \<and> ((\<forall>l \<in> set lines. \<not> startswith l ''Review:'') \<longrightarrow>
               extract_review_info review = Inr (last_field ''Product:'' lines, [])))"
proof (intro conjI allI impI)
  show "\<exists>lines. splits_into review [CHR 0x0A] lines" by (rule lines_exist)
next
  fix lines
  assume s: "splits_into review [CHR 0x0A] lines"
  then show "extract_review_info review
           = Inr (last_field ''Product:'' lines, last_field ''Review:'' lines)"
    by (rule extract_review_info_eq)
  {
    assume "\<forall>l \<in> set lines. \<not> startswith l ''Product:''"
    then have "last_field ''Product:'' lines = []" by (rule last_field_absent)
    with extract_review_info_eq [OF s]
    show "extract_review_info review = Inr ([], last_field ''Review:'' lines)" by simp
  }
  {
    assume "\<forall>l \<in> set lines. \<not> startswith l ''Review:''"
    then have "last_field ''Review:'' lines = []" by (rule last_field_absent)
    with extract_review_info_eq [OF s]
    show "extract_review_info review = Inr (last_field ''Product:'' lines, [])" by simp
  }
qed

theorem extract_review_info_fields_witness:
  "splits_into ''Product: Shoes\<newline>Review: Great fit'' [CHR 0x0A]
     [''Product: Shoes'', ''Review: Great fit'']
   \<and> extract_review_info ''Product: Shoes\<newline>Review: Great fit'' = Inr (''Shoes'', ''Great fit'')
   \<and> extract_review_info ''Product: A\<newline>Product:  B '' = Inr (''B'', [])
   \<and> list_all (\<lambda>l. \<not> startswith l ''Product:'') [''Review: ok'', ''more'']
   \<and> extract_review_info ''Review: ok\<newline>more'' = Inr ([], ''ok'')"
proof -
  have s1: "splits_into ''Product: Shoes\<newline>Review: Great fit'' [CHR 0x0A]
              [''Product: Shoes'', ''Review: Great fit'']"
    by code_simp
  have s2: "splits_into ''Product: A\<newline>Product:  B '' [CHR 0x0A] [''Product: A'', ''Product:  B '']"
    by code_simp
  have n2: "\<forall>l \<in> set [''Product: A'', ''Product:  B '']. \<not> startswith l ''Review:''"
    by code_simp
  have s3: "splits_into ''Review: ok\<newline>more'' [CHR 0x0A] [''Review: ok'', ''more'']"
    by code_simp
  have n3: "\<forall>l \<in> set [''Review: ok'', ''more'']. \<not> startswith l ''Product:''"
    by code_simp
  have v1: "last_field ''Product:'' [''Product: Shoes'', ''Review: Great fit''] = ''Shoes''"
           "last_field ''Review:'' [''Product: Shoes'', ''Review: Great fit''] = ''Great fit''"
           "last_field ''Product:'' [''Product: A'', ''Product:  B ''] = ''B''"
           "last_field ''Review:'' [''Review: ok'', ''more''] = ''ok''"
    by code_simp+
  note all = extract_review_info_fields [THEN conjunct2, rule_format]
  from all [OF s1, THEN conjunct1]
  have r1: "extract_review_info ''Product: Shoes\<newline>Review: Great fit'' = Inr (''Shoes'', ''Great fit'')"
    by (simp only: v1)
  from all [OF s2, THEN conjunct2, THEN conjunct2, THEN mp, OF n2]
  have r2: "extract_review_info ''Product: A\<newline>Product:  B '' = Inr (''B'', [])"
    by (simp only: v1)
  from all [OF s3, THEN conjunct2, THEN conjunct1, THEN mp, OF n3]
  have r3: "extract_review_info ''Review: ok\<newline>more'' = Inr ([], ''ok'')"
    by (simp only: v1)
  have a3: "list_all (\<lambda>l. \<not> startswith l ''Product:'') [''Review: ok'', ''more'']"
    by code_simp
  from s1 r1 r2 a3 r3 show ?thesis by (intro conjI)
qed

text \<open>
  Claim C4, as amended. For every record text, \<^verbatim>\<open>extract_email_info\<close> splits the record
  into lines and returns, without raising: as sender what follows the first colon, trimmed,
  of the last line starting with \<open>From:\<close>; as receiver the same for \<open>To:\<close>; as body the
  trimmed accumulator to which every line starting with none of \<open>Subject:\<close>, \<open>From:\<close>,
  \<open>To:\<close> was appended in order, each such line trimmed first and followed by a space.
  \<open>Subject:\<close> lines are left out of the body; without a \<open>From:\<close> or \<open>To:\<close> line the
  sender or receiver is the empty string.
\<close>

theorem extract_email_info_fields:
  "(\<exists>lines. splits_into email [CHR 0x0A] lines)
   \<and> (\<forall>lines. splits_into email [CHR 0x0A] lines \<longrightarrow>
         extract_email_info email
           = Inr (last_field ''From:'' lines, last_field ''To:'' lines,
                  strip (concat (map (\<lambda>line. strip line @ '' '') (filter is_body_line lines))))
         \<and> ((\<forall>l \<in> set lines. \<not> startswith l ''From:'') \<longrightarrow> last_field ''From:'' lines = [])
         \<and> ((\<forall>l \<in> set lines. \<not> startswith l ''To:'') \<longrightarrow> last_field ''To:'' lines = []))"
proof (intro conjI allI impI)
  show "\<exists>lines. splits_into email [CHR 0x0A] lines" by (rule lines_exist)
next
  fix lines
  assume s: "splits_into email [CHR 0x0A] lines"
  from extract_email_info_eq [OF s]
  show "extract_email_info email
           = Inr (last_field ''From:'' lines, last_field ''To:'' lines,
                  strip (concat (map (\<lambda>line. strip line @ '' '') (filter is_body_line lines))))"
    by (simp add: body_of_trimmed_lines_def)
  {
    assume "\<forall>l \<in> set lines. \<not> startswith l ''From:''"
    then show "last_field ''From:'' lines = []" by (rule last_field_absent)
  }
  {
    assume "\<forall>l \<in> set lines. \<not> startswith l ''To:''"
    then show "last_field ''To:'' lines = []" by (rule last_field_absent)
  }
qed

theorem extract_email_info_fields_witness:
  "splits_into ''From: a@x.com\<newline>To: b@x.com\<newline>Subject: Hi\<newline>Thanks for the order.'' [CHR 0x0A]
     [''From: a@x.com'', ''To: b@x.com'', ''Subject: Hi'', ''Thanks for the order.'']
   \<and> extract_email_info ''From: a@x.com\<newline>To: b@x.com\<newline>Subject: Hi\<newline>Thanks for the order.''
       = Inr (''a@x.com'', ''b@x.com'', ''Thanks for the order.'')
   \<and> list_all (\<lambda>l. \<not> startswith l ''From:'') [''hello '', '' you'']
   \<and> list_all (\<lambda>l. \<not> startswith l ''To:'') [''hello '', '' you'']
   \<and> extract_email_info ''hello \<newline> you'' = Inr ([], [], ''hello you'')"
proof -
  let ?e = "''From: a@x.com\<newline>To: b@x.com\<newline>Subject: Hi\<newline>Thanks for the order.''"
  let ?ls = "[''From: a@x.com'', ''To: b@x.com'', ''Subject: Hi'', ''Thanks for the order.'']"
  have s1: "splits_into ?e [CHR 0x0A] ?ls"
    by code_simp
  have s2: "splits_into ''hello \<newline> you'' [CHR 0x0A] [''hello '', '' you'']"
    by code_simp
  have n1: "\<forall>l \<in> set [''hello '', '' you'']. \<not> startswith l ''From:''"
    by code_simp
  have n2: "\<forall>l \<in> set [''hello '', '' you'']. \<not> startswith l ''To:''"
    by code_simp
  have v1: "last_field ''From:'' ?ls = ''a@x.com''"
           "last_field ''To:'' ?ls = ''b@x.com''"
           "strip (concat (map (\<lambda>line. strip line @ '' '') (filter is_body_line ?ls)))
              = ''Thanks for the order.''"
           "strip (concat (map (\<lambda>line. strip line @ '' '') (filter is_body_line [''hello '', '' you''])))
              = ''hello you''"
    by code_simp+
  note all = extract_email_info_fields [THEN conjunct2, rule_format]
  from all [OF s1, THEN conjunct1]
  have r1: "extract_email_info ?e = Inr (''a@x.com'', ''b@x.com'', ''Thanks for the order.'')"
    by (simp only: v1)
  from all [OF s2, THEN conjunct1]
       all [OF s2, THEN conjunct2, THEN conjunct1, THEN mp, OF n1]
       all [OF s2, THEN conjunct2, THEN conjunct2, THEN mp, OF n2]
  have r2: "extract_email_info ''hello \<newline> you'' = Inr ([], [], ''hello you'')"
    by (simp only: v1)
  have a1: "list_all (\<lambda>l. \<not> startswith l ''From:'') [''hello '', '' you'']"
    and a2: "list_all (\<lambda>l. \<not> startswith l ''To:'') [''hello '', '' you'']"
    by code_simp+
  from s1 r1 a1 a2 r2 show ?thesis by (intro conjI)
qed

text \<open>
  Claim C4 as stated appends each body line as it is. The record of the two lines
  \<open>a\<close> followed by two spaces, and \<open>b\<close>, has the body \<open>a b\<close>, where appending the lines
  untrimmed would give \<open>a\<close>, three spaces, \<open>b\<close>.
\<close>

theorem extract_email_info_body_counterexample:
  "splits_into ''a  \<newline>b'' [CHR 0x0A] [''a  '', ''b'']
   \<and> extract_email_info ''a  \<newline>b'' = Inr ([], [], ''a b'')
   \<and> body_of_lines [''a  '', ''b''] = ''a   b''
   \<and> extract_email_info ''a  \<newline>b''
        \<noteq> Inr (last_field ''From:'' [''a  '', ''b''], last_field ''To:'' [''a  '', ''b''],
                body_of_lines [''a  '', ''b''])"
  by code_simp

text \<open>
  Claim C10. In \<^verbatim>\<open>extract_email_info\<close> every body line is trimmed on its own before it is
  appended: the body of a record with the lines \<open>l1 \<dots> lk\<close> outside the headers is the
  trim of \<open>strip l1\<close>, a space, \<dots>, \<open>strip lk\<close>, a space. What is appended for a line
  neither begins nor ends with whitespace, and for a blank line it is nothing, so that a
  blank line contributes its separator space only.
\<close>

theorem email_body_lines_trimmed:
  "(\<forall>lines. splits_into email [CHR 0x0A] lines \<longrightarrow>
      (\<exists>sender receiver.
         extract_email_info email = Inr (sender, receiver, body_of_trimmed_lines lines)))
   \<and> body_of_trimmed_lines lines
       = strip (concat (map (\<lambda>line. strip line @ '' '') (filter is_body_line lines)))
   \<and> (strip line = [] \<or> (\<not> isspace (hd (strip line)) \<and> \<not> isspace (last (strip line))))
   \<and> ((\<forall>c \<in> set line. isspace c) \<longrightarrow> strip line @ '' '' = '' '')"
proof (intro conjI allI impI)
  fix lines
  assume "splits_into email [CHR 0x0A] lines"
  from extract_email_info_eq [OF this]
  show "\<exists>sender receiver.
         extract_email_info email = Inr (sender, receiver, body_of_trimmed_lines lines)"
    by blast
next
  show "body_of_trimmed_lines lines
       = strip (concat (map (\<lambda>line. strip line @ '' '') (filter is_body_line lines)))"
    by (rule body_of_trimmed_lines_def)
next
  show "strip line = [] \<or> (\<not> isspace (hd (strip line)) \<and> \<not> isspace (last (strip line)))"
    using strip_first strip_last by blast
next
  assume "\<forall>c \<in> set line. isspace c"
  then show "strip line @ '' '' = '' ''" by (simp add: strip_blank)
qed
theorem email_body_lines_trimmed_witness:
  "splits_into ''  hi  \<newline> \<newline>Subject: x\<newline>you'' [CHR 0x0A] [''  hi  '', '' '', ''Subject: x'', ''you'']
   \<and> (\<exists>sender receiver. extract_email_info ''  hi  \<newline> \<newline>Subject: x\<newline>you''
          = Inr (sender, receiver, ''hi  you''))
   \<and> list_all isspace '' ''
   \<and> strip '' '' @ '' '' = '' ''"
proof -
  let ?e = "''  hi  \<newline> \<newline>Subject: x\<newline>you''"
  let ?ls = "[''  hi  '', '' '', ''Subject: x'', ''you'']"
  have s: "splits_into ?e [CHR 0x0A] ?ls"
    by code_simp
  have b: "\<forall>c \<in> set '' ''. isspace c"
    by code_simp
  have v: "body_of_trimmed_lines ?ls = ''hi  you''"
    by code_simp
  note all = email_body_lines_trimmed [where email = ?e and line = "'' ''"]
  from all [THEN conjunct1, rule_format, OF s]
  have r: "\<exists>sender receiver. extract_email_info ?e = Inr (sender, receiver, ''hi  you'')"
    by (simp only: v)
  from all [THEN conjunct2, THEN conjunct2, THEN conjunct2, THEN mp, OF b]
  have k: "strip '' '' @ '' '' = '' ''" .
  have a: "list_all isspace '' ''"
    by code_simp
  from s r a k show ?thesis by (intro conjI)
qed

section \<open>The remote calls of one record\<close>

lemma send_message_cases:
  "(\<exists>x. send_message chat_session msg w = (Inr x, w\<lparr>events := events w @ [Sent msg x]\<rparr>))
   \<or> (\<exists>e. send_message chat_session msg w = (Inl e, w\<lparr>events := events w @ [Raised msg e]\<rparr>))"
  by (cases "chat_session (turns w) msg") (simp_all add: send_message_def)

lemma send_message_answers:
  assumes "\<forall>h m. \<exists>x. chat_session h m = Inr x"
  shows "\<exists>x. send_message chat_session msg w = (Inr x, w\<lparr>events := events w @ [Sent msg x]\<rparr>)"
proof -
  from assms obtain x where "chat_session (turns w) msg = Inr x" by blast
  then show ?thesis by (simp add: send_message_def)
qed

lemma guess_product_Inr:
  assumes "guess_product review_text chat_session w = (Inr guessed, w')"
  shows "\<exists>g. guessed = strip g
           \<and> w' = w\<lparr>events := events w @ [Sent (guess_prompt review_text) g]\<rparr>"
  using assms send_message_cases [of chat_session "guess_prompt review_text" w]
  by (auto simp: guess_product_def)

lemma guess_product_Inl:
  assumes "guess_product review_text chat_session w = (Inl e, w')"
  shows "\<exists>m. w' = w\<lparr>events := events w @ [Raised m e]\<rparr>"
  using assms send_message_cases [of chat_session "guess_prompt review_text" w]
  by (auto simp: guess_product_def)

lemma analyze_sentiment_Inr:
  assumes "analyze_sentiment review_text chat_session w = (Inr (sentiment, reply), w')"
  shows "\<exists>c r. sentiment = normalize_sentiment (strip c) \<and> reply = strip r
           \<and> w' = w\<lparr>events := events w
                  @ [Sent (classify_prompt review_text) c,
                     Sent (reply_prompt (normalize_sentiment (strip c)) review_text) r]\<rparr>"
proof -
  let ?m1 = "classify_prompt review_text"
  from assms obtain c w1 where c: "send_message chat_session ?m1 w = (Inr c, w1)"
    by (auto simp: analyze_sentiment_def split: prod.splits sum.splits)
  with send_message_cases [of chat_session ?m1 w]
  have w1: "w1 = w\<lparr>events := events w @ [Sent ?m1 c]\<rparr>" by auto
  let ?m2 = "reply_prompt (normalize_sentiment (strip c)) review_text"
  from assms c obtain r where r: "send_message chat_session ?m2 w1 = (Inr r, w')"
    and res: "sentiment = normalize_sentiment (strip c)" "reply = strip r"
    by (auto simp: analyze_sentiment_def Let_def split: prod.splits sum.splits)
  with send_message_cases [of chat_session ?m2 w1]
  have "w' = w1\<lparr>events := events w1 @ [Sent ?m2 r]\<rparr>" by auto
  with w1 have "w' = w\<lparr>events := events w @ [Sent ?m1 c, Sent ?m2 r]\<rparr>" by simp
  with res show ?thesis by blast
qed

lemma analyze_sentiment_Inl:
  assumes "analyze_sentiment review_text chat_session w = (Inl e, w')"
  shows "\<exists>evs m. w' = w\<lparr>events := events w @ evs @ [Raised m e]\<rparr>
           \<and> (\<forall>ev \<in> set evs. kind_of ev = Call)"
proof -
  let ?m1 = "classify_prompt review_text"
  from send_message_cases [of chat_session ?m1 w] show ?thesis
  proof (elim disjE exE)
    fix e1
    assume "send_message chat_session ?m1 w = (Inl e1, w\<lparr>events := events w @ [Raised ?m1 e1]\<rparr>)"
    with assms have "w' = w\<lparr>events := events w @ [] @ [Raised ?m1 e]\<rparr>"
      by (auto simp: analyze_sentiment_def)
    moreover have "\<forall>ev \<in> set ([]::event list). kind_of ev = Call" by simp
    ultimately show ?thesis by blast
  next
    fix c
    let ?w1 = "w\<lparr>events := events w @ [Sent ?m1 c]\<rparr>"
    let ?m2 = "reply_prompt (normalize_sentiment (strip c)) review_text"
    assume c: "send_message chat_session ?m1 w = (Inr c, ?w1)"
    from send_message_cases [of chat_session ?m2 ?w1] assms c
    have "w' = w\<lparr>events := events w @ [Sent ?m1 c] @ [Raised ?m2 e]\<rparr>"
      by (auto simp: analyze_sentiment_def Let_def)
    moreover have "\<forall>ev \<in> set [Sent ?m1 c]. kind_of ev = Call" by simp
    ultimately show ?thesis by blast
  qed
qed

lemma guess_product_answers:
  assumes "\<forall>h m. \<exists>x. chat_session h m = Inr x"
  shows "\<exists>g w'. guess_product review_text chat_session w = (Inr g, w')"
  using send_message_answers [OF assms, of "guess_prompt review_text" w]
  by (auto simp: guess_product_def)

lemma analyze_sentiment_answers:
  assumes "\<forall>h m. \<exists>x. chat_session h m = Inr x"
  shows "\<exists>s r w'. analyze_sentiment review_text chat_session w = (Inr (s, r), w')"
proof -
  from send_message_answers [OF assms, of "classify_prompt review_text" w]
  obtain c w1 where c: "send_message chat_session (classify_prompt review_text) w = (Inr c, w1)"
    by blast
  from send_message_answers
         [OF assms, of "reply_prompt (normalize_sentiment (strip c)) review_text" w1]
  obtain r w2 where
    "send_message chat_session (reply_prompt (normalize_sentiment (strip c)) review_text) w1
       = (Inr r, w2)"
    by blast
  with c show ?thesis by (simp add: analyze_sentiment_def Let_def)
qed

section \<open>The loops over the records\<close>

lemma extract_review_info_total: "\<exists>p t. extract_review_info review = Inr (p, t)"
  using lines_exist [of review] extract_review_info_eq by blast

lemma extract_email_info_total: "\<exists>s r b. extract_email_info email = Inr (s, r, b)"
  using lines_exist [of email] extract_email_info_eq by blast

lemma review_rows_Inr:
  "review_rows reviews chat_session data w = (Inr data', w') \<Longrightarrow>
     \<exists>answers. length answers = length reviews
       \<and> data' = data @ map2 review_row reviews answers
       \<and> w' = w\<lparr>events := events w @ concat (map2 review_events reviews answers)\<rparr>"
proof (induction reviews arbitrary: data w)
  case Nil
  then show ?case by (intro exI [of _ "[]"]) simp
next
  case (Cons review reviews)
  from extract_review_info_total obtain p t where ex: "extract_review_info review = Inr (p, t)"
    by blast
  obtain gres w1 where g: "guess_product t chat_session w = (gres, w1)"
    by fastforce
  show ?case
  proof (cases gres)
    case (Inl e)
    with Cons.prems ex g show ?thesis by simp
  next
    case gok: (Inr guessed)
    obtain ares w2 where a: "analyze_sentiment t chat_session w1 = (ares, w2)"
      by fastforce
    show ?thesis
    proof (cases ares)
      case (Inl e)
      with Cons.prems ex g gok a show ?thesis by simp
    next
      case (Inr sr)
      obtain s r where sr: "sr = (s, r)" by fastforce
      from Cons.prems ex g gok a Inr sr
      have rest: "review_rows reviews chat_session (data @ [[p, guessed, t, s, r]])
                    (time_sleep 2 w2) = (Inr data', w')"
        by simp
      from Cons.IH [OF rest] obtain answers where
        len: "length answers = length reviews"
        and d: "data' = (data @ [[p, guessed, t, s, r]]) @ map2 review_row reviews answers"
        and w: "w' = (time_sleep 2 w2)\<lparr>events := events (time_sleep 2 w2)
                        @ concat (map2 review_events reviews answers)\<rparr>"
        by blast
      from g gok guess_product_Inr obtain g' where
        g': "guessed = strip g'"
            "w1 = w\<lparr>events := events w @ [Sent (guess_prompt t) g']\<rparr>"
        by blast
      from a Inr sr analyze_sentiment_Inr obtain c r' where
        c: "s = normalize_sentiment (strip c)" "r = strip r'"
           "w2 = w1\<lparr>events := events w1
                   @ [Sent (classify_prompt t) c,
                      Sent (reply_prompt (normalize_sentiment (strip c)) t) r']\<rparr>"
        by blast
      let ?answers = "(g', c, r') # answers"
      from len have "length ?answers = length (review # reviews)" by simp
      moreover from d ex g'(1) c(1,2)
      have "data' = data @ map2 review_row (review # reviews) ?answers"
        by simp
      moreover from w g'(2) c(3) ex
      have "w' = w\<lparr>events := events w @ concat (map2 review_events (review # reviews) ?answers)\<rparr>"
        by (simp add: time_sleep_def c(1))
      ultimately show ?thesis by blast
    qed
  qed
qed

lemma review_rows_Inl:
  "review_rows reviews chat_session data w = (Inl e, w') \<Longrightarrow>
     \<exists>evs m. w' = w\<lparr>events := events w @ evs @ [Raised m e]\<rparr>
       \<and> (\<forall>ev \<in> set evs. kind_of ev = Call \<or> kind_of ev = Pause 2)"
proof (induction reviews arbitrary: data w)
  case Nil
  then show ?case by simp
next
  case (Cons review reviews)
  from extract_review_info_total obtain p t where ex: "extract_review_info review = Inr (p, t)"
    by blast
  obtain gres w1 where g: "guess_product t chat_session w = (gres, w1)"
    by fastforce
  show ?case
  proof (cases gres)
    case (Inl e1)
    with Cons.prems ex g have "e1 = e" "w1 = w'" by simp_all
    with g Inl guess_product_Inl obtain m where
      "w' = w\<lparr>events := events w @ [] @ [Raised m e]\<rparr>"
      by fastforce
    moreover have "\<forall>ev \<in> set ([]::event list). kind_of ev = Call \<or> kind_of ev = Pause 2"
      by simp
    ultimately show ?thesis by blast
  next
    case gok: (Inr guessed)
    from g gok guess_product_Inr obtain g' where
      w1: "w1 = w\<lparr>events := events w @ [Sent (guess_prompt t) g']\<rparr>"
      by blast
    obtain ares w2 where a: "analyze_sentiment t chat_session w1 = (ares, w2)"
      by fastforce
    show ?thesis
    proof (cases ares)
      case (Inl e1)
      with Cons.prems ex g gok a have "e1 = e" "w2 = w'" by simp_all
      with a Inl analyze_sentiment_Inl obtain evs m where
        e: "w' = w1\<lparr>events := events w1 @ evs @ [Raised m e]\<rparr>"
           "\<forall>ev \<in> set evs. kind_of ev = Call"
        by blast
      from e(1) w1
      have "w' = w\<lparr>events := events w @ (Sent (guess_prompt t) g' # evs) @ [Raised m e]\<rparr>"
        by simp
      moreover from e(2)
      have "\<forall>ev \<in> set (Sent (guess_prompt t) g' # evs). kind_of ev = Call \<or> kind_of ev = Pause 2"
        by simp
      ultimately show ?thesis by blast
    next
      case (Inr sr)
      obtain s r where sr: "sr = (s, r)" by fastforce
      from Cons.prems ex g gok a Inr sr
      have rest: "review_rows reviews chat_session (data @ [[p, guessed, t, s, r]])
                    (time_sleep 2 w2) = (Inl e, w')"
        by simp
      from Cons.IH [OF rest] obtain evs m where
        e: "w' = (time_sleep 2 w2)\<lparr>events := events (time_sleep 2 w2) @ evs @ [Raised m e]\<rparr>"
           "\<forall>ev \<in> set evs. kind_of ev = Call \<or> kind_of ev = Pause 2"
        by blast
      from a Inr sr analyze_sentiment_Inr obtain c r' where
        w2: "w2 = w1\<lparr>events := events w1
                   @ [Sent (classify_prompt t) c,
                      Sent (reply_prompt (normalize_sentiment (strip c)) t) r']\<rparr>"
        by blast
      let ?evs = "[Sent (guess_prompt t) g', Sent (classify_prompt t) c,
                   Sent (reply_prompt (normalize_sentiment (strip c)) t) r', Slept 2] @ evs"
      from e(1) w1 w2 have "w' = w\<lparr>events := events w @ ?evs @ [Raised m e]\<rparr>"
        by (simp add: time_sleep_def)
      moreover from e(2) have "\<forall>ev \<in> set ?evs. kind_of ev = Call \<or> kind_of ev = Pause 2"
        by simp
      ultimately show ?thesis by blast
    qed
  qed
qed

lemma review_rows_answers:
  assumes "\<forall>h m. \<exists>x. chat_session h m = Inr x"
  shows "\<exists>data' w'. review_rows reviews chat_session data w = (Inr data', w')"
proof (induction reviews arbitrary: data w)
  case Nil
  show ?case by simp
next
  case (Cons review reviews)
  from extract_review_info_total obtain p t where ex: "extract_review_info review = Inr (p, t)"
    by blast
  from guess_product_answers [OF assms] obtain g w1 where
    g: "guess_product t chat_session w = (Inr g, w1)" by blast
  from analyze_sentiment_answers [OF assms] obtain s r w2 where
    a: "analyze_sentiment t chat_session w1 = (Inr (s, r), w2)" by blast
  from Cons.IH [of "data @ [[p, g, t, s, r]]" "time_sleep 2 w2"] ex g a
  show ?case by simp
qed

lemma email_rows_Inr:
  "email_rows emails chat_session data w = (Inr data', w') \<Longrightarrow>
     \<exists>answers. length answers = length emails
       \<and> data' = data @ map2 email_row emails answers
       \<and> w' = w\<lparr>events := events w @ concat (map2 email_events emails answers)\<rparr>"
proof (induction emails arbitrary: data w)
  case Nil
  then show ?case by (intro exI [of _ "[]"]) simp
next
  case (Cons email emails)
  from extract_email_info_total obtain sender receiver body where
    ex: "extract_email_info email = Inr (sender, receiver, body)"
    by blast
  from send_message_cases [of chat_session "summarize_prompt body" w] show ?case
  proof (elim disjE exE)
    fix e
    assume "send_message chat_session (summarize_prompt body) w
              = (Inl e, w\<lparr>events := events w @ [Raised (summarize_prompt body) e]\<rparr>)"
    with Cons.prems ex show ?thesis by (simp add: summarize_email_def)
  next
    fix summary_en
    let ?w1 = "w\<lparr>events := events w @ [Sent (summarize_prompt body) summary_en]\<rparr>"
    assume s: "send_message chat_session (summarize_prompt body) w = (Inr summary_en, ?w1)"
    from send_message_cases [of chat_session "translate_prompt summary_en" ?w1] show ?thesis
    proof (elim disjE exE)
      fix e
      assume "send_message chat_session (translate_prompt summary_en) ?w1
                = (Inl e, ?w1\<lparr>events := events ?w1 @ [Raised (translate_prompt summary_en) e]\<rparr>)"
      with Cons.prems ex s show ?thesis
        by (simp add: summarize_email_def translate_email_def)
    next
      fix summary_de
      let ?w2 = "?w1\<lparr>events := events ?w1 @ [Sent (translate_prompt summary_en) summary_de]\<rparr>"
      assume t: "send_message chat_session (translate_prompt summary_en) ?w1 = (Inr summary_de, ?w2)"
      from Cons.prems ex s t
      have rest: "email_rows emails chat_session
                    (data @ [[sender, receiver, summary_en, summary_de]]) ?w2 = (Inr data', w')"
        by (simp add: summarize_email_def translate_email_def)
      from Cons.IH [OF rest] obtain answers where
        len: "length answers = length emails"
        and d: "data' = (data @ [[sender, receiver, summary_en, summary_de]])
                   @ map2 email_row emails answers"
        and w: "w' = ?w2\<lparr>events := events ?w2 @ concat (map2 email_events emails answers)\<rparr>"
        by blast
      let ?answers = "(summary_en, summary_de) # answers"
      from len have "length ?answers = length (email # emails)" by simp
      moreover from d ex have "data' = data @ map2 email_row (email # emails) ?answers"
        by simp
      moreover from w ex
      have "w' = w\<lparr>events := events w @ concat (map2 email_events (email # emails) ?answers)\<rparr>"
        by simp
      ultimately show ?thesis by blast
    qed
  qed
qed

lemma email_rows_Inl:
  "email_rows emails chat_session data w = (Inl e, w') \<Longrightarrow>
     \<exists>evs m. w' = w\<lparr>events := events w @ evs @ [Raised m e]\<rparr>
       \<and> (\<forall>ev \<in> set evs. kind_of ev = Call)"
proof (induction emails arbitrary: data w)
  case Nil
  then show ?case by simp
next
  case (Cons email emails)
  from extract_email_info_total obtain sender receiver body where
    ex: "extract_email_info email = Inr (sender, receiver, body)"
    by blast
  from send_message_cases [of chat_session "summarize_prompt body" w] show ?case
  proof (elim disjE exE)
    fix e1
    assume "send_message chat_session (summarize_prompt body) w
              = (Inl e1, w\<lparr>events := events w @ [Raised (summarize_prompt body) e1]\<rparr>)"
    with Cons.prems ex
    have "w' = w\<lparr>events := events w @ [] @ [Raised (summarize_prompt body) e]\<rparr>"
      by (auto simp: summarize_email_def)
    moreover have "\<forall>ev \<in> set ([]::event list). kind_of ev = Call" by simp
    ultimately show ?thesis by blast
  next
    fix summary_en
    let ?w1 = "w\<lparr>events := events w @ [Sent (summarize_prompt body) summary_en]\<rparr>"
    assume s: "send_message chat_session (summarize_prompt body) w = (Inr summary_en, ?w1)"
    from send_message_cases [of chat_session "translate_prompt summary_en" ?w1] show ?thesis
    proof (elim disjE exE)
      fix e1
      assume "send_message chat_session (translate_prompt summary_en) ?w1
                = (Inl e1, ?w1\<lparr>events := events ?w1 @ [Raised (translate_prompt summary_en) e1]\<rparr>)"
      with Cons.prems ex s
      have "w' = w\<lparr>events := events w @ [Sent (summarize_prompt body) summary_en]
                    @ [Raised (translate_prompt summary_en) e]\<rparr>"
        by (auto simp: summarize_email_def translate_email_def)
      moreover have "\<forall>ev \<in> set [Sent (summarize_prompt body) summary_en]. kind_of ev = Call"
        by simp
      ultimately show ?thesis by blast
    next
      fix summary_de
      let ?w2 = "?w1\<lparr>events := events ?w1 @ [Sent (translate_prompt summary_en) summary_de]\<rparr>"
      assume t: "send_message chat_session (translate_prompt summary_en) ?w1 = (Inr summary_de, ?w2)"
      from Cons.prems ex s t
      have rest: "email_rows emails chat_session
                    (data @ [[sender, receiver, summary_en, summary_de]]) ?w2 = (Inl e, w')"
        by (simp add: summarize_email_def translate_email_def)
      from Cons.IH [OF rest] obtain evs m where
        e: "w' = ?w2\<lparr>events := events ?w2 @ evs @ [Raised m e]\<rparr>"
           "\<forall>ev \<in> set evs. kind_of ev = Call"
        by blast
      let ?evs = "[Sent (summarize_prompt body) summary_en,
                   Sent (translate_prompt summary_en) summary_de] @ evs"
      from e(1) have "w' = w\<lparr>events := events w @ ?evs @ [Raised m e]\<rparr>"
        by simp
      moreover from e(2) have "\<forall>ev \<in> set ?evs. kind_of ev = Call"
        by simp
      ultimately show ?thesis by blast
    qed
  qed
qed

lemma email_rows_answers:
  assumes "\<forall>h m. \<exists>x. chat_session h m = Inr x"
  shows "\<exists>data' w'. email_rows emails chat_session data w = (Inr data', w')"
proof (induction emails arbitrary: data w)
  case Nil
  show ?case by simp
next
  case (Cons email emails)
  from extract_email_info_total obtain sender receiver body where
    ex: "extract_email_info email = Inr (sender, receiver, body)"
    by blast
  from send_message_answers [OF assms] obtain summary_en w1 where
    s: "send_message chat_session (summarize_prompt body) w = (Inr summary_en, w1)" by blast
  from send_message_answers [OF assms] obtain summary_de w2 where
    t: "send_message chat_session (translate_prompt summary_en) w1 = (Inr summary_de, w2)" by blast
  from Cons.IH [of "data @ [[sender, receiver, summary_en, summary_de]]" w2] ex s t
  show ?case by (simp add: summarize_email_def translate_email_def)
qed

section \<open>Whole runs\<close>

lemma review_events_kinds: "map kind_of (review_events review a) = [Call, Call, Call, Pause 2]"
proof -
  obtain g c r where a: "a = (g, c, r)" by (cases a) auto
  from extract_review_info_total obtain p t where "extract_review_info review = Inr (p, t)"
    by blast
  with a show ?thesis by simp
qed

lemma email_events_kinds: "map kind_of (email_events email a) = [Call, Call]"
proof -
  obtain s t where a: "a = (s, t)" by (cases a) auto
  from extract_email_info_total obtain sender receiver body where
    "extract_email_info email = Inr (sender, receiver, body)"
    by blast
  with a show ?thesis by simp
qed

lemma review_run_kinds:
  "length answers = length reviews \<Longrightarrow>
   map kind_of (concat (map2 review_events reviews answers))
     = concat (replicate (length reviews) [Call, Call, Call, Pause 2])"
proof (induction answers reviews rule: list_induct2)
  case Nil
  show ?case by simp
next
  case (Cons a answers review reviews)
  then show ?case by (simp add: review_events_kinds del: review_events.simps)
qed

lemma email_run_kinds:
  "length answers = length emails \<Longrightarrow>
   map kind_of (concat (map2 email_events emails answers))
     = concat (replicate (length emails) [Call, Call])"
proof (induction answers emails rule: list_induct2)
  case Nil
  show ?case by simp
next
  case (Cons a answers email emails)
  then show ?case by (simp add: email_events_kinds del: email_events.simps)
qed

lemma added_append [simp]: "added w (w\<lparr>events := events w @ evs\<rparr>) = evs"
  by (simp add: added_def)

lemma added_append_files [simp]:
  "added w (w\<lparr>files := f, events := events w @ evs\<rparr>) = evs"
  by (simp add: added_def)

lemma process_reviews_Inr:
  assumes "process_reviews file_path csv_file chat_session delimiter w = (Inr u, w')"
  shows "\<exists>reviews answers.
           read_reviews file_path delimiter w = Inr reviews
         \<and> length answers = length reviews
         \<and> writable w csv_file
         \<and> w' = w\<lparr>files := (files w)(csv_file \<mapsto>
                      writerow review_header @ writerows (map2 review_row reviews answers)),
                  events := events w @ concat (map2 review_events reviews answers)
                              @ [Wrote csv_file]\<rparr>"
proof -
  from assms obtain reviews where r: "read_reviews file_path delimiter w = Inr reviews"
    by (cases "read_reviews file_path delimiter w") (simp_all add: process_reviews_def)
  obtain res w1 where l: "review_rows reviews chat_session [] w = (res, w1)"
    by fastforce
  from assms r l obtain data where d: "res = Inr data"
    by (cases res) (simp_all add: process_reviews_def)
  from review_rows_Inr [OF l [unfolded d]] obtain answers where
    a: "length answers = length reviews" "data = map2 review_row reviews answers"
       "w1 = w\<lparr>events := events w @ concat (map2 review_events reviews answers)\<rparr>"
    by auto
  from assms r l d have s: "save_to_csv_reviews data csv_file w1 = (Inr u, w')"
    by (simp add: process_reviews_def)
  then have wr: "writable w1 csv_file"
    by (auto simp: save_to_csv_reviews_def write_csv_def split: if_splits)
  with s have "w' = w1\<lparr>files := (files w1)(csv_file \<mapsto> writerow review_header @ writerows data),
                       events := events w1 @ [Wrote csv_file]\<rparr>"
    by (simp add: save_to_csv_reviews_def write_csv_def)
  with a(2,3) have "w' = w\<lparr>files := (files w)(csv_file \<mapsto>
                      writerow review_header @ writerows (map2 review_row reviews answers)),
                  events := events w @ concat (map2 review_events reviews answers)
                              @ [Wrote csv_file]\<rparr>"
    by simp
  moreover from wr a(3) have "writable w csv_file" by simp
  ultimately show ?thesis using r a(1) by blast
qed

lemma process_emails_Inr:
  assumes "process_emails file_path csv_file chat_session delimiter w = (Inr u, w')"
  shows "\<exists>emails answers.
           read_emails file_path delimiter w = Inr emails
         \<and> length answers = length emails
         \<and> writable w csv_file
         \<and> w' = w\<lparr>files := (files w)(csv_file \<mapsto>
                      writerow email_header @ writerows (map2 email_row emails answers)),
                  events := events w @ concat (map2 email_events emails answers)
                              @ [Wrote csv_file]\<rparr>"
proof -
  from assms obtain emails where r: "read_emails file_path delimiter w = Inr emails"
    by (cases "read_emails file_path delimiter w") (simp_all add: process_emails_def)
  obtain res w1 where l: "email_rows emails chat_session [] w = (res, w1)"
    by fastforce
  from assms r l obtain data where d: "res = Inr data"
    by (cases res) (simp_all add: process_emails_def)
  from email_rows_Inr [OF l [unfolded d]] obtain answers where
    a: "length answers = length emails" "data = map2 email_row emails answers"
       "w1 = w\<lparr>events := events w @ concat (map2 email_events emails answers)\<rparr>"
    by auto
  from assms r l d have s: "save_to_csv_emails data csv_file w1 = (Inr u, w')"
    by (simp add: process_emails_def)
  then have wr: "writable w1 csv_file"
    by (auto simp: save_to_csv_emails_def write_csv_def split: if_splits)
  with s have "w' = w1\<lparr>files := (files w1)(csv_file \<mapsto> writerow email_header @ writerows data),
                       events := events w1 @ [Wrote csv_file]\<rparr>"
    by (simp add: save_to_csv_emails_def write_csv_def)
  with a(2,3) have "w' = w\<lparr>files := (files w)(csv_file \<mapsto>
                      writerow email_header @ writerows (map2 email_row emails answers)),
                  events := events w @ concat (map2 email_events emails answers)
                              @ [Wrote csv_file]\<rparr>"
    by simp
  moreover from wr a(3) have "writable w csv_file" by simp
  ultimately show ?thesis using r a(1) by blast
qed

lemma aborted_quiet:
  assumes "\<forall>ev \<in> set evs. kind_of ev = Call \<or> kind_of ev = Pause 2"
  shows "aborted w (w\<lparr>events := events w @ evs\<rparr>) e"
proof -
  from assms have "\<forall>ev \<in> set evs. kind_of ev \<noteq> Write" by auto
  moreover from assms have "\<forall>m e'. Raised m e' \<notin> set evs" by fastforce
  ultimately show ?thesis by (simp add: aborted_def)
qed

lemma aborted_raised:
  assumes "\<forall>ev \<in> set evs. kind_of ev = Call \<or> kind_of ev = Pause 2"
  shows "aborted w (w\<lparr>events := events w @ evs @ [Raised m e]\<rparr>) e"
proof -
  from assms have "\<forall>ev \<in> set (evs @ [Raised m e]). kind_of ev \<noteq> Write" by auto
  moreover from assms have "\<forall>m' e'. Raised m' e' \<notin> set evs" by fastforce
  then have "\<forall>m' e'. Raised m' e' \<in> set (evs @ [Raised m e]) \<longrightarrow>
                e' = e \<and> last (evs @ [Raised m e]) = Raised m' e"
    by simp
  ultimately show ?thesis unfolding aborted_def by (intro conjI exI [of _ "evs @ [Raised m e]"]) simp_all
qed

lemma review_events_quiet:
  assumes "ev \<in> set (concat (map2 review_events reviews answers))"
  shows "kind_of ev = Call \<or> kind_of ev = Pause 2"
proof -
  from assms obtain review a where "ev \<in> set (review_events review a)"
    by (auto simp del: review_events.simps)
  then have "kind_of ev \<in> set (map kind_of (review_events review a))"
    by (simp del: review_events.simps)
  then show ?thesis by (simp add: review_events_kinds del: review_events.simps)
qed

lemma email_events_quiet:
  assumes "ev \<in> set (concat (map2 email_events emails answers))"
  shows "kind_of ev = Call \<or> kind_of ev = Pause 2"
proof -
  from assms obtain email a where "ev \<in> set (email_events email a)"
    by (auto simp del: email_events.simps)
  then have "kind_of ev \<in> set (map kind_of (email_events email a))"
    by (simp del: email_events.simps)
  then show ?thesis by (simp add: email_events_kinds del: email_events.simps)
qed

lemma process_reviews_Inl:
  assumes "process_reviews file_path csv_file chat_session delimiter w = (Inl e, w')"
  shows "aborted w w' e"
proof (cases "read_reviews file_path delimiter w")
  case (Inl e1)
  with assms have "w' = w\<lparr>events := events w @ []\<rparr>" by (simp add: process_reviews_def)
  moreover have "aborted w (w\<lparr>events := events w @ []\<rparr>) e" by (rule aborted_quiet) simp
  ultimately show ?thesis by simp
next
  case (Inr reviews)
  obtain res w1 where l: "review_rows reviews chat_session [] w = (res, w1)"
    by fastforce
  show ?thesis
  proof (cases res)
    case (Inl e1)
    with assms Inr l have "e1 = e" "w1 = w'" by (simp_all add: process_reviews_def)
    with l Inl review_rows_Inl obtain evs m where
      "w' = w\<lparr>events := events w @ evs @ [Raised m e]\<rparr>"
      "\<forall>ev \<in> set evs. kind_of ev = Call \<or> kind_of ev = Pause 2"
      by blast
    then show ?thesis using aborted_raised by simp
  next
    case data: (Inr data)
    from review_rows_Inr [OF l [unfolded data]] obtain answers where
      a: "w1 = w\<lparr>events := events w @ concat (map2 review_events reviews answers)\<rparr>"
      by auto
    from assms Inr l data have "save_to_csv_reviews data csv_file w1 = (Inl e, w')"
      by (simp add: process_reviews_def)
    then have "w' = w1"
      by (auto simp: save_to_csv_reviews_def write_csv_def split: if_splits)
    with a have "w' = w\<lparr>events := events w @ concat (map2 review_events reviews answers)\<rparr>"
      by simp
    moreover have "aborted w (w\<lparr>events := events w @ concat (map2 review_events reviews answers)\<rparr>) e"
      by (rule aborted_quiet) (use review_events_quiet in blast)
    ultimately show ?thesis by simp
  qed
qed

lemma process_emails_Inl:
  assumes "process_emails file_path csv_file chat_session delimiter w = (Inl e, w')"
  shows "aborted w w' e"
proof (cases "read_emails file_path delimiter w")
  case (Inl e1)
  with assms have "w' = w\<lparr>events := events w @ []\<rparr>" by (simp add: process_emails_def)
  moreover have "aborted w (w\<lparr>events := events w @ []\<rparr>) e" by (rule aborted_quiet) simp
  ultimately show ?thesis by simp
next
  case (Inr emails)
  obtain res w1 where l: "email_rows emails chat_session [] w = (res, w1)"
    by fastforce
  show ?thesis
  proof (cases res)
    case (Inl e1)
    with assms Inr l have "e1 = e" "w1 = w'" by (simp_all add: process_emails_def)
    with l Inl email_rows_Inl obtain evs m where
      "w' = w\<lparr>events := events w @ evs @ [Raised m e]\<rparr>"
      "\<forall>ev \<in> set evs. kind_of ev = Call"
      by blast
    then show ?thesis using aborted_raised by simp
  next
    case data: (Inr data)
    from email_rows_Inr [OF l [unfolded data]] obtain answers where
      a: "w1 = w\<lparr>events := events w @ concat (map2 email_events emails answers)\<rparr>"
      by auto
    from assms Inr l data have "save_to_csv_emails data csv_file w1 = (Inl e, w')"
      by (simp add: process_emails_def)
    then have "w' = w1"
      by (auto simp: save_to_csv_emails_def write_csv_def split: if_splits)
    with a have "w' = w\<lparr>events := events w @ concat (map2 email_events emails answers)\<rparr>"
      by simp
    moreover have "aborted w (w\<lparr>events := events w @ concat (map2 email_events emails answers)\<rparr>) e"
      by (rule aborted_quiet) (use email_events_quiet in blast)
    ultimately show ?thesis by simp
  qed
qed

lemma process_reviews_answers:
  assumes "files w file_path = Some content" and "delimiter \<noteq> []"
    and "\<forall>h m. \<exists>x. chat_session h m = Inr x" and "writable w csv_file"
  shows "\<exists>w'. process_reviews file_path csv_file chat_session delimiter w = (Inr (), w')"
proof -
  from read_reviews_eq [OF assms(1,2)] obtain reviews where
    r: "read_reviews file_path delimiter w = Inr reviews" by blast
  from review_rows_answers [OF assms(3)] obtain data w1 where
    l: "review_rows reviews chat_session [] w = (Inr data, w1)" by blast
  from review_rows_Inr [OF l] assms(4) have "writable w1 csv_file" by auto
  with r l show ?thesis
    by (simp add: process_reviews_def save_to_csv_reviews_def write_csv_def)
qed

lemma process_emails_answers:
  assumes "files w file_path = Some content" and "delimiter \<noteq> []"
    and "\<forall>h m. \<exists>x. chat_session h m = Inr x" and "writable w csv_file"
  shows "\<exists>w'. process_emails file_path csv_file chat_session delimiter w = (Inr (), w')"
proof -
  from read_emails_eq [OF assms(1,2)] obtain emails where
    r: "read_emails file_path delimiter w = Inr emails" by blast
  from email_rows_answers [OF assms(3)] obtain data w1 where
    l: "email_rows emails chat_session [] w = (Inr data, w1)" by blast
  from email_rows_Inr [OF l] assms(4) have "writable w1 csv_file" by auto
  with r l show ?thesis
    by (simp add: process_emails_def save_to_csv_emails_def write_csv_def)
qed

lemma splits_into_sep: "splits_into content sep pieces \<Longrightarrow> sep \<noteq> []"
  by (auto simp: splits_into_def)

lemma review_row_fields:
  "\<exists>p t g s r. extract_review_info review = Inr (p, t) \<and> review_row review a = [p, g, t, s, r]"
proof -
  obtain g c r where a: "a = (g, c, r)" by (cases a) auto
  from extract_review_info_total obtain p t where "extract_review_info review = Inr (p, t)"
    by blast
  with a show ?thesis by simp
qed

lemma email_row_fields:
  "\<exists>sender receiver body en de.
     extract_email_info email = Inr (sender, receiver, body)
     \<and> email_row email a = [sender, receiver, en, de]"
proof -
  obtain en de where a: "a = (en, de)" by (cases a) auto
  from extract_email_info_total obtain sender receiver body where
    "extract_email_info email = Inr (sender, receiver, body)"
    by blast
  with a show ?thesis by simp
qed

lemma aborted_facts:
  assumes "aborted w w' e"
  shows "files w' = files w"
    and "Write \<notin> set (map kind_of (added w w'))"
    and "Raised m e' \<in> set (added w w') \<Longrightarrow> e' = e \<and> last (added w w') = Raised m e"
proof -
  from assms obtain evs where
    evs: "events w' = events w @ evs" "\<forall>ev \<in> set evs. kind_of ev \<noteq> Write"
         "\<forall>m e'. Raised m e' \<in> set evs \<longrightarrow> e' = e \<and> last evs = Raised m e"
    and f: "files w' = files w"
    by (auto simp: aborted_def)
  from evs(1) have a: "added w w' = evs" by (simp add: added_def)
  from f show "files w' = files w" .
  from a evs(2) show "Write \<notin> set (map kind_of (added w w'))" by auto
  from a evs(3) show "Raised m e' \<in> set (added w w') \<Longrightarrow> e' = e \<and> last (added w w') = Raised m e"
    by simp
qed

lemma review_run_added:
  assumes "process_reviews file_path csv_file chat_session delimiter w = (Inr u, w')"
  shows "\<exists>reviews. read_reviews file_path delimiter w = Inr reviews
           \<and> map kind_of (added w w')
               = concat (replicate (length reviews) [Call, Call, Call, Pause 2]) @ [Write]"
proof -
  from process_reviews_Inr [OF assms] obtain reviews answers where
    r: "read_reviews file_path delimiter w = Inr reviews"
    and a: "length answers = length reviews"
    and w': "w' = w\<lparr>files := (files w)(csv_file \<mapsto>
                      writerow review_header @ writerows (map2 review_row reviews answers)),
                  events := events w @ concat (map2 review_events reviews answers)
                              @ [Wrote csv_file]\<rparr>"
    by blast
  from w' have "added w w' = concat (map2 review_events reviews answers) @ [Wrote csv_file]"
    by simp
  with review_run_kinds [OF a] r show ?thesis by simp
qed

lemma email_run_added:
  assumes "process_emails file_path csv_file chat_session delimiter w = (Inr u, w')"
  shows "\<exists>emails. read_emails file_path delimiter w = Inr emails
           \<and> map kind_of (added w w')
               = concat (replicate (length emails) [Call, Call]) @ [Write]"
proof -
  from process_emails_Inr [OF assms] obtain emails answers where
    r: "read_emails file_path delimiter w = Inr emails"
    and a: "length answers = length emails"
    and w': "w' = w\<lparr>files := (files w)(csv_file \<mapsto>
                      writerow email_header @ writerows (map2 email_row emails answers)),
                  events := events w @ concat (map2 email_events emails answers)
                              @ [Wrote csv_file]\<rparr>"
    by blast
  from w' have "added w w' = concat (map2 email_events emails answers) @ [Wrote csv_file]"
    by simp
  with email_run_kinds [OF a] r show ?thesis by simp
qed

lemma no_failure_in_rounds:
  "Failure \<notin> set (concat (replicate n [Call, Call, Call, Pause 2]) @ [Write])"
  "Failure \<notin> set (concat (replicate n [Call, Call]) @ [Write])"
  by (induction n) auto

lemma raised_kind: "Raised m e \<in> set evs \<Longrightarrow> Failure \<in> set (map kind_of evs)"
  by force

lemma pauses_in_rounds:
  "length (filter (\<lambda>k. k = Pause 2) (concat (replicate n [Call, Call, Call, Pause 2]) @ [Write])) = n"
  by (induction n) simp_all

lemma no_pause_in_rounds: "Pause k \<notin> set (concat (replicate n [Call, Call]) @ [Write])"
  by (induction n) auto

lemma email_abort_no_pause:
  assumes "process_emails file_path csv_file chat_session delimiter w = (Inl e, w')"
  shows "Pause k \<notin> set (map kind_of (added w w'))"
proof (cases "read_emails file_path delimiter w")
  case (Inl e1)
  with assms have "w' = w\<lparr>events := events w @ []\<rparr>" by (simp add: process_emails_def)
  then have "added w w' = []" by (simp only: added_append)
  then show ?thesis by simp
next
  case (Inr emails)
  obtain res w1 where l: "email_rows emails chat_session [] w = (res, w1)"
    by fastforce
  show ?thesis
  proof (cases res)
    case (Inl e1)
    with assms Inr l have "e1 = e" "w1 = w'" by (simp_all add: process_emails_def)
    with l Inl email_rows_Inl obtain evs m where
      e: "w' = w\<lparr>events := events w @ evs @ [Raised m e]\<rparr>"
         "\<forall>ev \<in> set evs. kind_of ev = Call"
      by blast
    from e(1) have "added w w' = evs @ [Raised m e]" by (simp only: added_append)
    with e(2) show ?thesis by auto
  next
    case data: (Inr data)
    from email_rows_Inr [OF l [unfolded data]] obtain answers where
      a: "w1 = w\<lparr>events := events w @ concat (map2 email_events emails answers)\<rparr>"
      by auto
    from assms Inr l data have "save_to_csv_emails data csv_file w1 = (Inl e, w')"
      by (simp add: process_emails_def)
    then have "w' = w1"
      by (auto simp: save_to_csv_emails_def write_csv_def split: if_splits)
    with a have "added w w' = concat (map2 email_events emails answers)"
      by (simp only: added_append)
    with email_events_quiet show ?thesis by fastforce
  qed
qed

lemma concat_pairs_nth:
  "\<forall>xs \<in> set xss. length xs = 2 \<Longrightarrow> i < length xss \<Longrightarrow> concat xss ! (2 * i + 1) = xss ! i ! 1"
proof (induction xss arbitrary: i)
  case Nil
  then show ?case by simp
next
  case (Cons xs xss)
  from Cons.prems have l: "length xs = 2" by simp
  show ?case
  proof (cases i)
    case 0
    with l show ?thesis by (simp add: nth_append)
  next
    case (Suc j)
    with Cons.prems have "j < length xss" and "\<forall>xs \<in> set xss. length xs = 2" by simp_all
    with Cons.IH have "concat xss ! (2 * j + 1) = xss ! j ! 1" by blast
    with l Suc show ?thesis by (simp add: nth_append)
  qed
qed

lemma email_events_length: "length (email_events email a) = 2"
  using email_events_kinds [of email a] by (metis length_map length_Cons list.size(3) numeral_2_eq_2)

lemma concat_pairs_length:
  "\<forall>xs \<in> set xss. length xs = 2 \<Longrightarrow> length (concat xss) = 2 * length xss"
  by (induction xss) simp_all

lemma email_translate_event:
  "email_events email a ! 1
     = Sent (''Translate the following text to Telugu: '' @ email_row email a ! 2)
            (email_row email a ! 3)"
proof -
  obtain en de where a: "a = (en, de)" by (cases a) auto
  from extract_email_info_total obtain sender receiver body where
    "extract_email_info email = Inr (sender, receiver, body)"
    by blast
  with a show ?thesis by (simp add: translate_prompt_def)
qed

lemma analyze_sentiment_Inl_kinds:
  assumes "analyze_sentiment review_text chat_session w = (Inl e, w')"
  shows "\<exists>evs. w' = w\<lparr>events := events w @ evs\<rparr>
           \<and> map kind_of evs \<in> set [[Failure], [Call, Failure]]"
proof -
  let ?m1 = "classify_prompt review_text"
  from send_message_cases [of chat_session ?m1 w] show ?thesis
  proof (elim disjE exE)
    fix e1
    assume "send_message chat_session ?m1 w = (Inl e1, w\<lparr>events := events w @ [Raised ?m1 e1]\<rparr>)"
    with assms have "w' = w\<lparr>events := events w @ [Raised ?m1 e]\<rparr>"
      by (auto simp: analyze_sentiment_def)
    moreover have "map kind_of [Raised ?m1 e] \<in> set [[Failure], [Call, Failure]]" by simp
    ultimately show ?thesis by blast
  next
    fix c
    let ?w1 = "w\<lparr>events := events w @ [Sent ?m1 c]\<rparr>"
    let ?m2 = "reply_prompt (normalize_sentiment (strip c)) review_text"
    assume c: "send_message chat_session ?m1 w = (Inr c, ?w1)"
    from send_message_cases [of chat_session ?m2 ?w1] assms c
    have "w' = w\<lparr>events := events w @ [Sent ?m1 c, Raised ?m2 e]\<rparr>"
      by (auto simp: analyze_sentiment_def Let_def)
    moreover have "map kind_of [Sent ?m1 c, Raised ?m2 e] \<in> set [[Failure], [Call, Failure]]"
      by simp
    ultimately show ?thesis by blast
  qed
qed

lemma review_rows_Inl_kinds:
  "review_rows reviews chat_session data w = (Inl e, w') \<Longrightarrow>
     \<exists>evs k tail. w' = w\<lparr>events := events w @ evs\<rparr>
       \<and> k < length reviews
       \<and> tail \<in> set [[Failure], [Call, Failure], [Call, Call, Failure]]
       \<and> map kind_of evs = concat (replicate k [Call, Call, Call, Pause 2]) @ tail"
proof (induction reviews arbitrary: data w)
  case Nil
  then show ?case by simp
next
  case (Cons review reviews)
  from extract_review_info_total obtain p t where ex: "extract_review_info review = Inr (p, t)"
    by blast
  obtain gres w1 where g: "guess_product t chat_session w = (gres, w1)"
    by fastforce
  show ?case
  proof (cases gres)
    case (Inl e1)
    with Cons.prems ex g have "e1 = e" "w1 = w'" by simp_all
    with g Inl guess_product_Inl obtain m where
      w': "w' = w\<lparr>events := events w @ [Raised m e]\<rparr>"
      by fastforce
    have "(0::nat) < length (review # reviews)" by simp
    moreover have "[Failure] \<in> set [[Failure], [Call, Failure], [Call, Call, Failure]]" by simp
    moreover have "map kind_of [Raised m e] = concat (replicate 0 [Call, Call, Call, Pause 2]) @ [Failure]"
      by simp
    ultimately show ?thesis using w' by blast
  next
    case gok: (Inr guessed)
    from g gok guess_product_Inr obtain g' where
      w1: "w1 = w\<lparr>events := events w @ [Sent (guess_prompt t) g']\<rparr>"
      by blast
    obtain ares w2 where a: "analyze_sentiment t chat_session w1 = (ares, w2)"
      by fastforce
    show ?thesis
    proof (cases ares)
      case (Inl e1)
      with Cons.prems ex g gok a have "e1 = e" "w2 = w'" by simp_all
      with a Inl analyze_sentiment_Inl_kinds obtain evs where
        e: "w' = w1\<lparr>events := events w1 @ evs\<rparr>"
           "map kind_of evs \<in> set [[Failure], [Call, Failure]]"
        by blast
      let ?evs = "Sent (guess_prompt t) g' # evs"
      from e(1) w1 have "w' = w\<lparr>events := events w @ ?evs\<rparr>"
        by simp
      moreover have "(0::nat) < length (review # reviews)" by simp
      moreover from e(2)
      have "map kind_of ?evs \<in> set [[Failure], [Call, Failure], [Call, Call, Failure]]"
        by auto
      moreover have "map kind_of ?evs
          = concat (replicate 0 [Call, Call, Call, Pause 2]) @ map kind_of ?evs"
        by simp
      ultimately show ?thesis by blast
    next
      case (Inr sr)
      obtain s r where sr: "sr = (s, r)" by fastforce
      from Cons.prems ex g gok a Inr sr
      have rest: "review_rows reviews chat_session (data @ [[p, guessed, t, s, r]])
                    (time_sleep 2 w2) = (Inl e, w')"
        by simp
      from Cons.IH [OF rest] obtain evs k tail where
        e: "w' = (time_sleep 2 w2)\<lparr>events := events (time_sleep 2 w2) @ evs\<rparr>"
           "k < length reviews"
           "tail \<in> set [[Failure], [Call, Failure], [Call, Call, Failure]]"
           "map kind_of evs = concat (replicate k [Call, Call, Call, Pause 2]) @ tail"
        by blast
      from a Inr sr analyze_sentiment_Inr obtain c r' where
        w2: "w2 = w1\<lparr>events := events w1
                   @ [Sent (classify_prompt t) c,
                      Sent (reply_prompt (normalize_sentiment (strip c)) t) r']\<rparr>"
        by blast
      let ?evs = "[Sent (guess_prompt t) g', Sent (classify_prompt t) c,
                   Sent (reply_prompt (normalize_sentiment (strip c)) t) r', Slept 2] @ evs"
      from e(1) w1 w2 have "w' = w\<lparr>events := events w @ ?evs\<rparr>"
        by (simp add: time_sleep_def)
      moreover from e(2) have "Suc k < length (review # reviews)" by simp
      moreover from e(4)
      have "map kind_of ?evs = concat (replicate (Suc k) [Call, Call, Call, Pause 2]) @ tail"
        by simp
      ultimately show ?thesis using e(3) by blast
    qed
  qed
qed

lemma pauses_in_trace:
  assumes "Pause 2 \<notin> set tail"
  shows "length (filter (\<lambda>s. s = Pause 2) (concat (replicate k [Call, Call, Call, Pause 2]) @ tail)) = k"
proof -
  from assms have "filter (\<lambda>s. s = Pause 2) tail = []"
    by (auto simp: filter_empty_conv)
  then show ?thesis by (induction k) simp_all
qed

lemma pause_lengths_in_trace:
  assumes "\<forall>n. Pause n \<notin> set tail"
  shows "Pause n \<in> set (concat (replicate k [Call, Call, Call, Pause 2]) @ tail) \<Longrightarrow> n = 2"
  using assms by (induction k) auto

text \<open>Every run of the review pipeline, whatever its result.\<close>

lemma review_run_trace:
  assumes "process_reviews file_path csv_file chat_session delimiter w = (res, w')"
  shows "\<exists>k tail.
           map kind_of (added w w') = concat (replicate k [Call, Call, Call, Pause 2]) @ tail
         \<and> tail \<in> set [[], [Write], [Failure], [Call, Failure], [Call, Call, Failure]]
         \<and> (res = Inr () \<longleftrightarrow> tail = [Write])
         \<and> (\<forall>reviews. read_reviews file_path delimiter w = Inr reviews \<longrightarrow>
                (if tail \<in> set [[], [Write]] then k = length reviews else k < length reviews))"
proof (cases "read_reviews file_path delimiter w")
  case (Inl e1)
  with assms have "w' = w\<lparr>events := events w @ []\<rparr>" and "res = Inl e1"
    by (simp_all add: process_reviews_def)
  then have "map kind_of (added w w') = concat (replicate 0 [Call, Call, Call, Pause 2]) @ []"
    and "res \<noteq> Inr ()"
    by (simp_all only: added_append, simp_all)
  with Inl show ?thesis
    by (intro exI [of _ 0] exI [of _ "[]"]) simp
next
  case (Inr reviews)
  obtain lres w1 where l: "review_rows reviews chat_session [] w = (lres, w1)"
    by fastforce
  show ?thesis
  proof (cases lres)
    case (Inl e1)
    with assms Inr l have r: "res = Inl e1" "w1 = w'" by (simp_all add: process_reviews_def)
    with l Inl review_rows_Inl_kinds obtain evs k tail where
      e: "w' = w\<lparr>events := events w @ evs\<rparr>"
         "k < length reviews"
         "tail \<in> set [[Failure], [Call, Failure], [Call, Call, Failure]]"
         "map kind_of evs = concat (replicate k [Call, Call, Call, Pause 2]) @ tail"
      by blast
    from e(1) have "added w w' = evs" by (simp only: added_append)
    with e(4) have "map kind_of (added w w')
        = concat (replicate k [Call, Call, Call, Pause 2]) @ tail" by simp
    moreover from e(3)
    have "tail \<in> set [[], [Write], [Failure], [Call, Failure], [Call, Call, Failure]]"
      and "tail \<noteq> [Write]" and "tail \<notin> set [[], [Write]]"
      by auto
    ultimately show ?thesis using r(1) e(2) Inr
      by (intro exI [of _ k] exI [of _ tail]) simp
  next
    case data: (Inr data)
    from review_rows_Inr [OF l [unfolded data]] obtain answers where
      a: "length answers = length reviews"
         "w1 = w\<lparr>events := events w @ concat (map2 review_events reviews answers)\<rparr>"
      by auto
    from assms Inr l data have s: "save_to_csv_reviews data csv_file w1 = (res, w')"
      by (simp add: process_reviews_def)
    show ?thesis
    proof (cases "writable w1 csv_file")
      case True
      with s a(2) have "res = Inr ()"
        and "added w w' = concat (map2 review_events reviews answers) @ [Wrote csv_file]"
        by (auto simp: save_to_csv_reviews_def write_csv_def added_def)
      with review_run_kinds [OF a(1)] Inr show ?thesis
        by (intro exI [of _ "length reviews"] exI [of _ "[Write]"]) simp
    next
      case False
      with s a(2) have "res = Inl IOError"
        and "added w w' = concat (map2 review_events reviews answers)"
        by (auto simp: save_to_csv_reviews_def write_csv_def added_def)
      with review_run_kinds [OF a(1)] Inr show ?thesis
        by (intro exI [of _ "length reviews"] exI [of _ "[]"]) simp
    qed
  qed
qed

section \<open>The file that is written\<close>

lemma read_quoted_doubled:
  assumes "rest = [] \<or> hd rest \<noteq> CHR 0x22"
  shows "read_quoted (concat (map (\<lambda>c. if c = CHR 0x22 then [c, c] else [c]) f) @ CHR 0x22 # rest)
           = (f, rest)"
proof (induction f)
  case Nil
  from assms show ?case by (cases rest) simp_all
next
  case (Cons x xs)
  then show ?case by simp
qed

lemma read_field_csv_field:
  assumes "rest \<noteq> []" and "\<not> plain (hd rest)"
  shows "read_field (csv_field f @ rest) = (f, rest)"
proof (cases "list_ex (\<lambda>c. c \<in> set [CHR 0x2C, CHR 0x22, CHR 0x0D, CHR 0x0A]) f")
  case True
  from assms(2) have "hd rest \<noteq> CHR 0x22" by (auto simp: plain_def)
  then have "rest = [] \<or> hd rest \<noteq> CHR 0x22" by simp
  from read_quoted_doubled [OF this, of f] True show ?thesis
    by (simp add: csv_field_def read_field_def)
next
  case False
  then have pl: "\<forall>c \<in> set f. plain c" and nq: "\<forall>c \<in> set f. c \<noteq> CHR 0x22"
    by (auto simp: list_ex_iff plain_def)
  from assms obtain r rs where rest: "rest = r # rs" and r: "\<not> plain r"
    by (cases rest) auto
  from r have rq: "r \<noteq> CHR 0x22" by (auto simp: plain_def)
  from pl rest r have tw: "takeWhile plain (f @ rest) = f"
    by (simp add: takeWhile_append2)
  from pl rest r have dw: "dropWhile plain (f @ rest) = rest"
    by (simp add: dropWhile_append2)
  from nq rq rest have "hd (f @ rest) \<noteq> CHR 0x22" by (cases f) simp_all
  moreover from rest have "f @ rest \<noteq> []" by simp
  ultimately have "read_field (f @ rest) = (takeWhile plain (f @ rest), dropWhile plain (f @ rest))"
    by (cases "f @ rest") (simp_all add: read_field_def)
  with tw dw False show ?thesis by (simp add: csv_field_def)
qed

lemma read_row_joined:
  assumes "row \<noteq> []"
  shows "read_row (join [CHR 0x2C] (map csv_field row) @ CHR 0x0D # CHR 0x0A # rest) = (row, rest)"
  using assms
proof (induction row rule: list_nonempty_induct)
  case (single f)
  have "read_field (csv_field f @ CHR 0x0D # CHR 0x0A # rest) = (f, CHR 0x0D # CHR 0x0A # rest)"
    by (rule read_field_csv_field) (simp_all add: plain_def)
  from read_row_last [OF this] show ?case by simp
next
  case (cons f fs)
  let ?tail = "join [CHR 0x2C] (map csv_field fs) @ CHR 0x0D # CHR 0x0A # rest"
  from cons.hyps have "map csv_field fs \<noteq> []" by simp
  then have j: "join [CHR 0x2C] (map csv_field (f # fs)) @ CHR 0x0D # CHR 0x0A # rest
                  = csv_field f @ CHR 0x2C # ?tail"
    by (simp add: join_Cons)
  have "read_field (csv_field f @ CHR 0x2C # ?tail) = (f, CHR 0x2C # ?tail)"
    by (rule read_field_csv_field) (simp_all add: plain_def)
  with cons.IH show ?case
    unfolding j by (simp add: read_row.simps [of "csv_field f @ CHR 0x2C # ?tail"])
qed

lemma read_row_writerow:
  assumes "row \<noteq> []"
  shows "read_row (writerow row @ rest) = (row, rest)"
proof (cases "row = [[]]")
  case True
  have "read_field (CHR 0x22 # CHR 0x22 # CHR 0x0D # CHR 0x0A # rest)
          = ([], CHR 0x0D # CHR 0x0A # rest)"
    by (simp add: read_field_def)
  from read_row_last [OF this] True show ?thesis by (simp add: writerow_def)
next
  case False
  with read_row_joined [OF assms, of rest] show ?thesis by (simp add: writerow_def)
qed

lemma csv_rows_writerows:
  assumes "\<forall>row \<in> set rows. row \<noteq> []"
  shows "csv_rows (writerows rows) = rows"
  using assms
proof (induction rows)
  case Nil
  show ?case by (simp add: writerows_def csv_rows.simps)
next
  case (Cons row rows)
  then have ne: "row \<noteq> []" and ih: "csv_rows (writerows rows) = rows" by simp_all
  have w: "writerows (row # rows) = writerow row @ writerows rows"
    by (simp add: writerows_def)
  have "writerow row @ writerows rows \<noteq> []" by (simp add: writerow_def)
  with read_row_writerow [OF ne, of "writerows rows"] ih show ?case
    unfolding w by (simp add: csv_rows.simps [of "writerow row @ writerows rows"])
qed

lemma concat_blocks_length:
  "\<forall>xs \<in> set xss. length xs = n \<Longrightarrow> length (concat xss) = n * length xss"
  by (induction xss) simp_all

lemma concat_blocks_nth:
  "\<forall>xs \<in> set xss. length xs = n \<Longrightarrow> i < length xss \<Longrightarrow> j < n
     \<Longrightarrow> concat xss ! (n * i + j) = xss ! i ! j"
proof (induction xss arbitrary: i)
  case Nil
  then show ?case by simp
next
  case (Cons xs xss)
  from Cons.prems have l: "length xs = n" by simp
  show ?case
  proof (cases i)
    case 0
    with l Cons.prems(3) show ?thesis by (simp add: nth_append)
  next
    case (Suc k)
    with Cons.prems have "k < length xss" and "\<forall>xs \<in> set xss. length xs = n" by simp_all
    with Cons.IH Cons.prems(3) have ih: "concat xss ! (n * k + j) = xss ! k ! j" by blast
    have "n * Suc k + j = length xs + (n * k + j)" using l by simp
    then have "concat (xs # xss) ! (n * Suc k + j) = concat xss ! (n * k + j)"
      by (simp only: concat.simps nth_append_length_plus)
    with ih Suc show ?thesis by simp
  qed
qed

lemma run_event_nth:
  assumes "\<forall>xs \<in> set xss. length xs = n" and "i < length xss" and "j < n"
  shows "(concat xss @ tail) ! (n * i + j) = xss ! i ! j"
proof -
  from concat_blocks_length [OF assms(1)] have "length (concat xss) = n * length xss" .
  moreover have "n * i + n \<le> n * length xss"
  proof -
    from assms(2) have "Suc i \<le> length xss" by simp
    then have "n * Suc i \<le> n * length xss" by (rule mult_le_mono2)
    then show ?thesis by simp
  qed
  ultimately have "n * i + j < length (concat xss)" using assms(3) by simp
  then have "(concat xss @ tail) ! (n * i + j) = concat xss ! (n * i + j)"
    by (simp add: nth_append)
  with concat_blocks_nth [OF assms] show ?thesis by simp
qed

lemma review_record:
  "\<exists>p t g c r.
     extract_review_info review = Inr (p, t)
   \<and> review_row review a = [p, strip g, t, normalize_sentiment (strip c), strip r]
   \<and> review_events review a
       = [Sent (guess_prompt t) g, Sent (classify_prompt t) c,
          Sent (reply_prompt (normalize_sentiment (strip c)) t) r, Slept 2]"
proof -
  obtain g c r where a: "a = (g, c, r)" by (cases a) auto
  from extract_review_info_total obtain p t where "extract_review_info review = Inr (p, t)"
    by blast
  with a show ?thesis by simp
qed

lemma email_record:
  "\<exists>sender receiver body en de.
     extract_email_info email = Inr (sender, receiver, body)
   \<and> email_row email a = [sender, receiver, en, de]
   \<and> email_events email a
       = [Sent (summarize_prompt body) en, Sent (translate_prompt en) de]"
proof -
  obtain en de where a: "a = (en, de)" by (cases a) auto
  from extract_email_info_total obtain sender receiver body where
    "extract_email_info email = Inr (sender, receiver, body)"
    by blast
  with a show ?thesis by simp
qed

lemma review_events_length: "length (review_events review a) = 4"
  using review_record [of review a] by (auto simp del: review_events.simps review_row.simps)

lemma header_texts:
  "writerow review_header
     = ''Original Product,Guessed Product,Review,Sentiment,Reply'' @ [CHR 0x0D, CHR 0x0A]"
  "writerow email_header
     = ''Sender,Receiver,Summary (EN),Summary (DE)'' @ [CHR 0x0D, CHR 0x0A]"
  by code_simp+

lemma csv_rows_file:
  assumes "header \<noteq> []" and "\<forall>row \<in> set rows. row \<noteq> []"
  shows "csv_rows (writerow header @ writerows rows) = header # rows"
proof -
  have "writerow header @ writerows rows = writerows (header # rows)"
    by (simp add: writerows_def)
  with csv_rows_writerows [of "header # rows"] assms show ?thesis by simp
qed

lemma review_rows_nonempty: "\<forall>row \<in> set (map2 review_row segments answers). row \<noteq> []"
proof
  fix row
  assume "row \<in> set (map2 review_row segments answers)"
  then obtain review a where "row = review_row review a"
    by (auto simp del: review_row.simps)
  with review_record [of review a] show "row \<noteq> []"
    by (auto simp del: review_row.simps review_events.simps)
qed

lemma email_rows_nonempty: "\<forall>row \<in> set (map2 email_row segments answers). row \<noteq> []"
proof
  fix row
  assume "row \<in> set (map2 email_row segments answers)"
  then obtain email a where "row = email_row email a"
    by (auto simp del: email_row.simps)
  with email_record [of email a] show "row \<noteq> []"
    by (auto simp del: email_row.simps email_events.simps)
qed

lemma review_run_rows:
  assumes run: "process_reviews file_path csv_file chat_session delimiter w = (Inr (), w')"
    and rr: "read_reviews file_path delimiter w = Inr segments"
  shows "\<exists>rows text.
            files w' csv_file = Some text
          \<and> text = (''Original Product,Guessed Product,Review,Sentiment,Reply''
                      @ [CHR 0x0D, CHR 0x0A]) @ writerows rows
          \<and> csv_rows text = review_header # rows
          \<and> length rows = length segments
          \<and> (\<forall>i < length segments. \<exists>p t g c r.
                extract_review_info (segments ! i) = Inr (p, t)
              \<and> rows ! i = [p, strip g, t, normalize_sentiment (strip c), strip r]
              \<and> added w w' ! (4 * i) = Sent (guess_prompt t) g
              \<and> added w w' ! (4 * i + 1) = Sent (classify_prompt t) c
              \<and> added w w' ! (4 * i + 2)
                  = Sent (reply_prompt (normalize_sentiment (strip c)) t) r)"
proof -
  from process_reviews_Inr [OF run] rr obtain answers where
    a: "length answers = length segments"
    and w': "w' = w\<lparr>files := (files w)(csv_file \<mapsto>
                    writerow review_header @ writerows (map2 review_row segments answers)),
                events := events w @ concat (map2 review_events segments answers)
                            @ [Wrote csv_file]\<rparr>"
    by auto
  let ?rows = "map2 review_row segments answers"
  let ?evs = "map2 review_events segments answers"
  let ?text = "writerow review_header @ writerows ?rows"
  from w' have f: "files w' csv_file = Some ?text"
    by simp
  have t: "?text = (''Original Product,Guessed Product,Review,Sentiment,Reply''
                      @ [CHR 0x0D, CHR 0x0A]) @ writerows ?rows"
    by (simp only: header_texts)
  have "review_header \<noteq> []" by (simp add: review_header_def)
  from csv_rows_file [OF this review_rows_nonempty]
  have c: "csv_rows ?text = review_header # ?rows" .
  from a have l: "length ?rows = length segments" by simp
  from w' have ad: "added w w' = concat ?evs @ [Wrote csv_file]"
    by simp
  have four: "\<forall>xs \<in> set ?evs. length xs = 4"
    using review_events_length by (auto simp del: review_events.simps)
  have rec: "\<exists>p t g c r.
                extract_review_info (segments ! i) = Inr (p, t)
              \<and> ?rows ! i = [p, strip g, t, normalize_sentiment (strip c), strip r]
              \<and> added w w' ! (4 * i) = Sent (guess_prompt t) g
              \<and> added w w' ! (4 * i + 1) = Sent (classify_prompt t) c
              \<and> added w w' ! (4 * i + 2)
                  = Sent (reply_prompt (normalize_sentiment (strip c)) t) r"
    if i: "i < length segments" for i
  proof -
    from a i have li: "i < length ?evs" by simp
    from a i have ri: "?rows ! i = review_row (segments ! i) (answers ! i)"
      and ei: "?evs ! i = review_events (segments ! i) (answers ! i)"
      by simp_all
    from review_record [of "segments ! i" "answers ! i"] obtain p t g c r where
      r: "extract_review_info (segments ! i) = Inr (p, t)"
         "review_row (segments ! i) (answers ! i)
            = [p, strip g, t, normalize_sentiment (strip c), strip r]"
         "review_events (segments ! i) (answers ! i)
            = [Sent (guess_prompt t) g, Sent (classify_prompt t) c,
               Sent (reply_prompt (normalize_sentiment (strip c)) t) r, Slept 2]"
      by blast
    from run_event_nth [OF four li, of 0 "[Wrote csv_file]"] ad ei r(3)
    have e0: "added w w' ! (4 * i) = Sent (guess_prompt t) g"
      by (simp del: review_events.simps)
    from run_event_nth [OF four li, of 1 "[Wrote csv_file]"] ad ei r(3)
    have e1: "added w w' ! (4 * i + 1) = Sent (classify_prompt t) c"
      by (simp del: review_events.simps)
    from run_event_nth [OF four li, of 2 "[Wrote csv_file]"] ad ei r(3)
    have e2: "added w w' ! (4 * i + 2)
                = Sent (reply_prompt (normalize_sentiment (strip c)) t) r"
      by (simp del: review_events.simps)
    from r(1) r(2) ri e0 e1 e2 show ?thesis by (simp del: review_row.simps)
  qed
  from f t c l rec show ?thesis by blast
qed

lemma email_events_length2: "length (email_events email a) = 2"
  using email_record [of email a] by (auto simp del: email_events.simps email_row.simps)

lemma email_run_rows:
  assumes run: "process_emails file_path csv_file chat_session delimiter w = (Inr (), w')"
    and rr: "read_emails file_path delimiter w = Inr segments"
  shows "\<exists>rows text.
            files w' csv_file = Some text
          \<and> text = (''Sender,Receiver,Summary (EN),Summary (DE)''
                      @ [CHR 0x0D, CHR 0x0A]) @ writerows rows
          \<and> csv_rows text = email_header # rows
          \<and> length rows = length segments
          \<and> (\<forall>i < length segments. \<exists>sender receiver body en de.
                extract_email_info (segments ! i) = Inr (sender, receiver, body)
              \<and> rows ! i = [sender, receiver, en, de]
              \<and> added w w' ! (2 * i) = Sent (summarize_prompt body) en
              \<and> added w w' ! (2 * i + 1) = Sent (translate_prompt en) de)"
proof -
  from process_emails_Inr [OF run] rr obtain answers where
    a: "length answers = length segments"
    and w': "w' = w\<lparr>files := (files w)(csv_file \<mapsto>
                    writerow email_header @ writerows (map2 email_row segments answers)),
                events := events w @ concat (map2 email_events segments answers)
                            @ [Wrote csv_file]\<rparr>"
    by auto
  let ?rows = "map2 email_row segments answers"
  let ?evs = "map2 email_events segments answers"
  let ?text = "writerow email_header @ writerows ?rows"
  from w' have f: "files w' csv_file = Some ?text"
    by simp
  have t: "?text = (''Sender,Receiver,Summary (EN),Summary (DE)''
                      @ [CHR 0x0D, CHR 0x0A]) @ writerows ?rows"
    by (simp only: header_texts)
  have "email_header \<noteq> []" by (simp add: email_header_def)
  from csv_rows_file [OF this email_rows_nonempty]
  have c: "csv_rows ?text = email_header # ?rows" .
  from a have l: "length ?rows = length segments" by simp
  from w' have ad: "added w w' = concat ?evs @ [Wrote csv_file]"
    by simp
  have two: "\<forall>xs \<in> set ?evs. length xs = 2"
    using email_events_length2 by (auto simp del: email_events.simps)
  have rec: "\<exists>sender receiver body en de.
                extract_email_info (segments ! i) = Inr (sender, receiver, body)
              \<and> ?rows ! i = [sender, receiver, en, de]
              \<and> added w w' ! (2 * i) = Sent (summarize_prompt body) en
              \<and> added w w' ! (2 * i + 1) = Sent (translate_prompt en) de"
    if i: "i < length segments" for i
  proof -
    from a i have li: "i < length ?evs" by simp
    from a i have ri: "?rows ! i = email_row (segments ! i) (answers ! i)"
      and ei: "?evs ! i = email_events (segments ! i) (answers ! i)"
      by simp_all
    from email_record [of "segments ! i" "answers ! i"] obtain sender receiver body en de where
      r: "extract_email_info (segments ! i) = Inr (sender, receiver, body)"
         "email_row (segments ! i) (answers ! i) = [sender, receiver, en, de]"
         "email_events (segments ! i) (answers ! i)
            = [Sent (summarize_prompt body) en, Sent (translate_prompt en) de]"
      by blast
    from run_event_nth [OF two li, of 0 "[Wrote csv_file]"] ad ei r(3)
    have e0: "added w w' ! (2 * i) = Sent (summarize_prompt body) en"
      by (simp del: email_events.simps)
    from run_event_nth [OF two li, of 1 "[Wrote csv_file]"] ad ei r(3)
    have e1: "added w w' ! (2 * i + 1) = Sent (translate_prompt en) de"
      by (simp del: email_events.simps)
    from r(1) r(2) ri e0 e1 show ?thesis by (simp del: email_row.simps)
  qed
  from f t c l rec show ?thesis by blast
qed

section \<open>The pipelines\<close>

text \<open>
  Claim C2. For every input file content, in both pipelines a run that completes writes
  one row for each non-empty, trimmed segment of the content split on the delimiter, in
  the order of the segments. The file written is the header line followed by the rows as
  \<^verbatim>\<open>csv.writer\<close> writes them, and read back as CSV it gives the header and exactly these
  rows; there are as many rows as segments. Row \<open>i\<close> belongs to segment \<open>i\<close>: it holds
  the fields extracted from segment \<open>i\<close> and the answers to the calls of round \<open>i\<close> of the
  run, whose messages are built from segment \<open>i\<close>. With no segments the file holds the
  header line only. The run does complete when the remote model answers every call and
  the output can be written.
\<close>

theorem rows_follow_segments:
  assumes "files w file_path = Some content"
    and "splits_into content delimiter pieces"
    and "segments = filter (\<lambda>p. p \<noteq> []) (map strip pieces)"
  shows
   "(process_reviews file_path csv_file chat_session delimiter w = (Inr (), w') \<longrightarrow>
       (\<exists>rows text.
            files w' csv_file = Some text
          \<and> text = (''Original Product,Guessed Product,Review,Sentiment,Reply''
                      @ [CHR 0x0D, CHR 0x0A]) @ writerows rows
          \<and> csv_rows text = review_header # rows
          \<and> length rows = length segments
          \<and> (\<forall>i < length segments. \<exists>p t g c r.
                extract_review_info (segments ! i) = Inr (p, t)
              \<and> rows ! i = [p, strip g, t, normalize_sentiment (strip c), strip r]
              \<and> added w w' ! (4 * i) = Sent (guess_prompt t) g
              \<and> added w w' ! (4 * i + 1) = Sent (classify_prompt t) c
              \<and> added w w' ! (4 * i + 2)
                  = Sent (reply_prompt (normalize_sentiment (strip c)) t) r)))
    \<and> (process_emails file_path csv_file chat_session delimiter w = (Inr (), w') \<longrightarrow>
       (\<exists>rows text.
            files w' csv_file = Some text
          \<and> text = (''Sender,Receiver,Summary (EN),Summary (DE)''
                      @ [CHR 0x0D, CHR 0x0A]) @ writerows rows
          \<and> csv_rows text = email_header # rows
          \<and> length rows = length segments
          \<and> (\<forall>i < length segments. \<exists>sender receiver body en de.
                extract_email_info (segments ! i) = Inr (sender, receiver, body)
              \<and> rows ! i = [sender, receiver, en, de]
              \<and> added w w' ! (2 * i) = Sent (summarize_prompt body) en
              \<and> added w w' ! (2 * i + 1) = Sent (translate_prompt en) de)))
    \<and> (segments = [] \<and> writable w csv_file \<longrightarrow>
         (\<exists>v. process_reviews file_path csv_file chat_session delimiter w = (Inr (), v)
               \<and> files v csv_file
                   = Some (''Original Product,Guessed Product,Review,Sentiment,Reply''
                             @ [CHR 0x0D, CHR 0x0A]))
       \<and> (\<exists>v. process_emails file_path csv_file chat_session delimiter w = (Inr (), v)
               \<and> files v csv_file
                   = Some (''Sender,Receiver,Summary (EN),Summary (DE)''
                             @ [CHR 0x0D, CHR 0x0A])))
    \<and> ((\<forall>h m. \<exists>x. chat_session h m = Inr x) \<and> writable w csv_file \<longrightarrow>
         fst (process_reviews file_path csv_file chat_session delimiter w) = Inr ()
       \<and> fst (process_emails file_path csv_file chat_session delimiter w) = Inr ())"
proof (intro conjI impI)
  from assms(2) have sep: "delimiter \<noteq> []" by (rule splits_into_sep)
  from split_sep_unique [OF sep assms(2)] assms(3)
  have seg: "segments = filter (\<lambda>p. p \<noteq> []) (map strip (split_sep content delimiter))"
    by simp
  from read_reviews_eq [OF assms(1) sep] seg
  have rr: "read_reviews file_path delimiter w = Inr segments" by simp
  from read_emails_eq [OF assms(1) sep] seg
  have re: "read_emails file_path delimiter w = Inr segments" by simp
  {
    assume "process_reviews file_path csv_file chat_session delimiter w = (Inr (), w')"
    from review_run_rows [OF this rr]
    show "\<exists>rows text.
            files w' csv_file = Some text
          \<and> text = (''Original Product,Guessed Product,Review,Sentiment,Reply''
                      @ [CHR 0x0D, CHR 0x0A]) @ writerows rows
          \<and> csv_rows text = review_header # rows
          \<and> length rows = length segments
          \<and> (\<forall>i < length segments. \<exists>p t g c r.
                extract_review_info (segments ! i) = Inr (p, t)
              \<and> rows ! i = [p, strip g, t, normalize_sentiment (strip c), strip r]
              \<and> added w w' ! (4 * i) = Sent (guess_prompt t) g
              \<and> added w w' ! (4 * i + 1) = Sent (classify_prompt t) c
              \<and> added w w' ! (4 * i + 2)
                  = Sent (reply_prompt (normalize_sentiment (strip c)) t) r)" .
  }
  {
    assume "process_emails file_path csv_file chat_session delimiter w = (Inr (), w')"
    from email_run_rows [OF this re]
    show "\<exists>rows text.
            files w' csv_file = Some text
          \<and> text = (''Sender,Receiver,Summary (EN),Summary (DE)''
                      @ [CHR 0x0D, CHR 0x0A]) @ writerows rows
          \<and> csv_rows text = email_header # rows
          \<and> length rows = length segments
          \<and> (\<forall>i < length segments. \<exists>sender receiver body en de.
                extract_email_info (segments ! i) = Inr (sender, receiver, body)
              \<and> rows ! i = [sender, receiver, en, de]
              \<and> added w w' ! (2 * i) = Sent (summarize_prompt body) en
              \<and> added w w' ! (2 * i + 1) = Sent (translate_prompt en) de)" .
  }
  {
    assume none: "segments = [] \<and> writable w csv_file"
    from none rr have "process_reviews file_path csv_file chat_session delimiter w
        = (Inr (), w\<lparr>files := (files w)(csv_file \<mapsto> writerow review_header),
                       events := events w @ [Wrote csv_file]\<rparr>)"
      by (simp add: process_reviews_def save_to_csv_reviews_def write_csv_def writerows_def)
    moreover have "files (w\<lparr>files := (files w)(csv_file \<mapsto> writerow review_header),
                       events := events w @ [Wrote csv_file]\<rparr>) csv_file
        = Some (''Original Product,Guessed Product,Review,Sentiment,Reply''
                  @ [CHR 0x0D, CHR 0x0A])"
      by (simp only: header_texts) simp
    ultimately show "\<exists>v. process_reviews file_path csv_file chat_session delimiter w = (Inr (), v)
               \<and> files v csv_file
                   = Some (''Original Product,Guessed Product,Review,Sentiment,Reply''
                             @ [CHR 0x0D, CHR 0x0A])"
      by (intro exI conjI)
    from none re have "process_emails file_path csv_file chat_session delimiter w
        = (Inr (), w\<lparr>files := (files w)(csv_file \<mapsto> writerow email_header),
                       events := events w @ [Wrote csv_file]\<rparr>)"
      by (simp add: process_emails_def save_to_csv_emails_def write_csv_def writerows_def)
    moreover have "files (w\<lparr>files := (files w)(csv_file \<mapsto> writerow email_header),
                       events := events w @ [Wrote csv_file]\<rparr>) csv_file
        = Some (''Sender,Receiver,Summary (EN),Summary (DE)'' @ [CHR 0x0D, CHR 0x0A])"
      by (simp only: header_texts) simp
    ultimately show "\<exists>v. process_emails file_path csv_file chat_session delimiter w = (Inr (), v)
               \<and> files v csv_file
                   = Some (''Sender,Receiver,Summary (EN),Summary (DE)''
                             @ [CHR 0x0D, CHR 0x0A])"
      by (intro exI conjI)
  }
  {
    assume total: "(\<forall>h m. \<exists>x. chat_session h m = Inr x) \<and> writable w csv_file"
    then have t1: "\<forall>h m. \<exists>x. chat_session h m = Inr x" and t2: "writable w csv_file"
      by simp_all
    from process_reviews_answers [OF assms(1) sep t1 t2]
    show "fst (process_reviews file_path csv_file chat_session delimiter w) = Inr ()"
      by auto
    from process_emails_answers [OF assms(1) sep t1 t2]
    show "fst (process_emails file_path csv_file chat_session delimiter w) = Inr ()"
      by auto
  }
qed

theorem rows_follow_segments_witness:
  "splits_into two_reviews review_delimiter
     [''Product: Shoes\<newline>Review: Great fit'', ''\<newline>Product: Hat\<newline>Review: Too small\<newline>'', ''\<newline>'']
   \<and> fst (process_reviews ''reviews.txt'' ''out.csv'' (always ''Positive'') review_delimiter
            (world_with ''reviews.txt'' two_reviews)) = Inr ()
   \<and> map_option csv_rows
         (files (snd (process_reviews ''reviews.txt'' ''out.csv'' (always ''Positive'')
                        review_delimiter (world_with ''reviews.txt'' two_reviews))) ''out.csv'')
       = Some [[''Original Product'', ''Guessed Product'', ''Review'', ''Sentiment'', ''Reply''],
               [''Shoes'', ''Positive'', ''Great fit'', ''Positive'', ''Positive''],
               [''Hat'', ''Positive'', ''Too small'', ''Positive'', ''Positive'']]
   \<and> (\<exists>rows text.
         files (snd (process_reviews ''reviews.txt'' ''out.csv'' (always ''Positive'')
                       review_delimiter (world_with ''reviews.txt'' two_reviews))) ''out.csv''
           = Some text
         \<and> text = (''Original Product,Guessed Product,Review,Sentiment,Reply''
                     @ [CHR 0x0D, CHR 0x0A]) @ writerows rows
         \<and> csv_rows text = review_header # rows
         \<and> length rows
             = length [''Product: Shoes\<newline>Review: Great fit'', ''Product: Hat\<newline>Review: Too small'']
         \<and> (\<forall>i < length [''Product: Shoes\<newline>Review: Great fit'',
                             ''Product: Hat\<newline>Review: Too small''].
               \<exists>p t g c r.
                 extract_review_info
                   ([''Product: Shoes\<newline>Review: Great fit'',
                     ''Product: Hat\<newline>Review: Too small''] ! i) = Inr (p, t)
               \<and> rows ! i = [p, strip g, t, normalize_sentiment (strip c), strip r]
               \<and> added (world_with ''reviews.txt'' two_reviews)
                     (snd (process_reviews ''reviews.txt'' ''out.csv'' (always ''Positive'')
                             review_delimiter (world_with ''reviews.txt'' two_reviews)))
                     ! (4 * i) = Sent (guess_prompt t) g
               \<and> added (world_with ''reviews.txt'' two_reviews)
                     (snd (process_reviews ''reviews.txt'' ''out.csv'' (always ''Positive'')
                             review_delimiter (world_with ''reviews.txt'' two_reviews)))
                     ! (4 * i + 1) = Sent (classify_prompt t) c
               \<and> added (world_with ''reviews.txt'' two_reviews)
                     (snd (process_reviews ''reviews.txt'' ''out.csv'' (always ''Positive'')
                             review_delimiter (world_with ''reviews.txt'' two_reviews)))
                     ! (4 * i + 2)
                   = Sent (reply_prompt (normalize_sentiment (strip c)) t) r))
   \<and> (\<exists>v. process_emails ''email.txt'' ''out.csv'' (always ''Positive'') email_delimiter
              (world_with ''email.txt'' email_delimiter) = (Inr (), v)
          \<and> files v ''out.csv''
              = Some (''Sender,Receiver,Summary (EN),Summary (DE)'' @ [CHR 0x0D, CHR 0x0A]))"
proof -
  let ?w = "world_with ''reviews.txt'' two_reviews"
  let ?pieces = "[''Product: Shoes\<newline>Review: Great fit'',
                  ''\<newline>Product: Hat\<newline>Review: Too small\<newline>'', ''\<newline>'']"
  let ?segs = "[''Product: Shoes\<newline>Review: Great fit'', ''Product: Hat\<newline>Review: Too small'']"
  let ?run = "process_reviews ''reviews.txt'' ''out.csv'' (always ''Positive'') review_delimiter ?w"
  have f: "files ?w ''reviews.txt'' = Some two_reviews"
    by (simp add: world_with_def)
  have s: "splits_into two_reviews review_delimiter ?pieces"
    by code_simp
  have g: "?segs = filter (\<lambda>p. p \<noteq> []) (map strip ?pieces)"
    by code_simp
  have c: "(\<forall>h m. \<exists>x. always ''Positive'' h m = Inr x) \<and> writable ?w ''out.csv''"
    by (simp add: always_def world_with_def)
  note all = rows_follow_segments
    [where chat_session = "always ''Positive''" and csv_file = "''out.csv''"
       and w' = "snd ?run", OF f s g]
  from all [THEN conjunct2, THEN conjunct2, THEN conjunct2, THEN mp, OF c, THEN conjunct1]
  have ok: "fst ?run = Inr ()" .
  then have run: "?run = (Inr (), snd ?run)"
    by (simp add: prod_eq_iff)
  note rows = all [THEN conjunct1, THEN mp, OF run]
  have parsed: "map_option csv_rows (files (snd ?run) ''out.csv'')
       = Some [[''Original Product'', ''Guessed Product'', ''Review'', ''Sentiment'', ''Reply''],
               [''Shoes'', ''Positive'', ''Great fit'', ''Positive'', ''Positive''],
               [''Hat'', ''Positive'', ''Too small'', ''Positive'', ''Positive'']]"
    by code_simp
  let ?v = "world_with ''email.txt'' email_delimiter"
  have f2: "files ?v ''email.txt'' = Some email_delimiter"
    by (simp add: world_with_def)
  have s2: "splits_into email_delimiter email_delimiter ['''', '''']"
    by code_simp
  have g2: "[] = filter (\<lambda>p. p \<noteq> []) (map strip ['''', ''''])"
    by code_simp
  have c2: "[] = ([]::string list) \<and> writable ?v ''out.csv''"
    by (simp add: world_with_def)
  note none = rows_follow_segments
    [where chat_session = "always ''Positive''" and csv_file = "''out.csv''", OF f2 s2 g2,
     THEN conjunct2, THEN conjunct2, THEN conjunct1, THEN mp, OF c2, THEN conjunct2]
  show ?thesis
    by (intro conjI) (rule s, rule ok, rule parsed, rule rows, rule none)
qed

text \<open>
  Claim C7. A remote call that raises while any record is processed aborts the whole run
  before the output file is written. If a run raises, no file has changed and nothing was
  written; if a call raised during the run, the run raised the same error and the call
  was the last thing the run did (no record is skipped and none is processed after it);
  and a run that returns has made the calls of every record and only then, last, written
  the file.
\<close>

theorem remote_error_aborts_run:
  "(process_reviews file_path csv_file chat_session delimiter w = (res, w') \<longrightarrow>
      (res = Inl e \<longrightarrow> files w' = files w \<and> Write \<notin> set (map kind_of (added w w')))
    \<and> (Raised m e \<in> set (added w w') \<longrightarrow>
          res = Inl e \<and> last (added w w') = Raised m e
          \<and> files w' = files w \<and> Write \<notin> set (map kind_of (added w w')))
    \<and> (res = Inr () \<longrightarrow>
          (\<exists>reviews. read_reviews file_path delimiter w = Inr reviews
             \<and> map kind_of (added w w')
                 = concat (replicate (length reviews) [Call, Call, Call, Pause 2]) @ [Write])))
   \<and> (process_emails file_path csv_file chat_session delimiter w = (res, w') \<longrightarrow>
      (res = Inl e \<longrightarrow> files w' = files w \<and> Write \<notin> set (map kind_of (added w w')))
    \<and> (Raised m e \<in> set (added w w') \<longrightarrow>
          res = Inl e \<and> last (added w w') = Raised m e
          \<and> files w' = files w \<and> Write \<notin> set (map kind_of (added w w')))
    \<and> (res = Inr () \<longrightarrow>
          (\<exists>emails. read_emails file_path delimiter w = Inr emails
             \<and> map kind_of (added w w')
                 = concat (replicate (length emails) [Call, Call]) @ [Write])))"
proof (intro conjI impI)
  assume "process_reviews file_path csv_file chat_session delimiter w = (res, w')" "res = Inl e"
  then have "aborted w w' e" using process_reviews_Inl by simp
  then show "files w' = files w" "Write \<notin> set (map kind_of (added w w'))"
    by (rule aborted_facts)+
next
  assume "process_emails file_path csv_file chat_session delimiter w = (res, w')" "res = Inl e"
  then have "aborted w w' e" using process_emails_Inl by simp
  then show "files w' = files w" "Write \<notin> set (map kind_of (added w w'))"
    by (rule aborted_facts)+
next
  assume "process_reviews file_path csv_file chat_session delimiter w = (res, w')" "res = Inr ()"
  then show "\<exists>reviews. read_reviews file_path delimiter w = Inr reviews
             \<and> map kind_of (added w w')
                 = concat (replicate (length reviews) [Call, Call, Call, Pause 2]) @ [Write]"
    using review_run_added by simp
next
  assume "process_emails file_path csv_file chat_session delimiter w = (res, w')" "res = Inr ()"
  then show "\<exists>emails. read_emails file_path delimiter w = Inr emails
             \<and> map kind_of (added w w')
                 = concat (replicate (length emails) [Call, Call]) @ [Write]"
    using email_run_added by simp
next
  assume run: "process_reviews file_path csv_file chat_session delimiter w = (res, w')"
    and raised: "Raised m e \<in> set (added w w')"
  have ab: "\<exists>e1. res = Inl e1"
  proof (cases res)
    case (Inr u)
    with run have "process_reviews file_path csv_file chat_session delimiter w = (Inr u, w')"
      by simp
    from review_run_added [OF this] obtain reviews :: "string list" where
      k: "map kind_of (added w w')
            = concat (replicate (length reviews) [Call, Call, Call, Pause 2]) @ [Write]"
      by blast
    have "Failure \<notin> set (map kind_of (added w w'))"
      unfolding k by (rule no_failure_in_rounds(1))
    with raised_kind [OF raised] show ?thesis by simp
  qed simp
  then obtain e1 where e1: "res = Inl e1" by blast
  with run have a: "aborted w w' e1" using process_reviews_Inl by simp
  from aborted_facts(3) [OF a raised] e1
  show "res = Inl e" "last (added w w') = Raised m e" by simp_all
  from aborted_facts(1,2) [OF a]
  show "files w' = files w" "Write \<notin> set (map kind_of (added w w'))" .
next
  assume run: "process_emails file_path csv_file chat_session delimiter w = (res, w')"
    and raised: "Raised m e \<in> set (added w w')"
  have ab: "\<exists>e1. res = Inl e1"
  proof (cases res)
    case (Inr u)
    with run have "process_emails file_path csv_file chat_session delimiter w = (Inr u, w')"
      by simp
    from email_run_added [OF this] obtain emails :: "string list" where
      k: "map kind_of (added w w') = concat (replicate (length emails) [Call, Call]) @ [Write]"
      by blast
    have "Failure \<notin> set (map kind_of (added w w'))"
      unfolding k by (rule no_failure_in_rounds(2))
    with raised_kind [OF raised] show ?thesis by simp
  qed simp
  then obtain e1 where e1: "res = Inl e1" by blast
  with run have a: "aborted w w' e1" using process_emails_Inl by simp
  from aborted_facts(3) [OF a raised] e1
  show "res = Inl e" "last (added w w') = Raised m e" by simp_all
  from aborted_facts(1,2) [OF a]
  show "files w' = files w" "Write \<notin> set (map kind_of (added w w'))" .
qed

theorem remote_error_aborts_run_witness:
  "read_reviews ''reviews.txt'' review_delimiter (world_with ''reviews.txt'' five_reviews)
     = Inr [''Review: a'', ''Review: b'', ''Review: c'', ''Review: d'', ''Review: e'']
   \<and> Raised (classify_prompt ''b'') (RemoteError ''quota exceeded'')
       \<in> set (added (world_with ''reviews.txt'' five_reviews)
                 (snd (process_reviews ''reviews.txt'' ''out.csv'' (scripted [''1'', ''2'', ''3'', ''4''])
                         review_delimiter (world_with ''reviews.txt'' five_reviews))))
   \<and> fst (process_reviews ''reviews.txt'' ''out.csv'' (scripted [''1'', ''2'', ''3'', ''4''])
            review_delimiter (world_with ''reviews.txt'' five_reviews))
       = Inl (RemoteError ''quota exceeded'')
   \<and> last (added (world_with ''reviews.txt'' five_reviews)
              (snd (process_reviews ''reviews.txt'' ''out.csv'' (scripted [''1'', ''2'', ''3'', ''4''])
                      review_delimiter (world_with ''reviews.txt'' five_reviews))))
       = Raised (classify_prompt ''b'') (RemoteError ''quota exceeded'')
   \<and> files (snd (process_reviews ''reviews.txt'' ''out.csv'' (scripted [''1'', ''2'', ''3'', ''4''])
                   review_delimiter (world_with ''reviews.txt'' five_reviews)))
       = files (world_with ''reviews.txt'' five_reviews)
   \<and> files (world_with ''reviews.txt'' five_reviews) ''out.csv'' = None
   \<and> fst (process_emails ''email.txt'' ''out.csv'' (scripted [''s1'', ''t1'', ''s2'', ''t2''])
            email_delimiter (world_with ''email.txt'' two_emails)) = Inr ()
   \<and> (\<exists>emails. read_emails ''email.txt'' email_delimiter (world_with ''email.txt'' two_emails)
                   = Inr emails
          \<and> map kind_of
                (added (world_with ''email.txt'' two_emails)
                   (snd (process_emails ''email.txt'' ''out.csv'' (scripted [''s1'', ''t1'', ''s2'', ''t2''])
                           email_delimiter (world_with ''email.txt'' two_emails))))
              = concat (replicate (length emails) [Call, Call]) @ [Write])"
proof -
  let ?w = "world_with ''reviews.txt'' five_reviews"
  let ?run = "process_reviews ''reviews.txt'' ''out.csv'' (scripted [''1'', ''2'', ''3'', ''4''])
                review_delimiter ?w"
  let ?e = "RemoteError ''quota exceeded''"
  have r: "read_reviews ''reviews.txt'' review_delimiter ?w
             = Inr [''Review: a'', ''Review: b'', ''Review: c'', ''Review: d'', ''Review: e'']"
    by code_simp
  have raised: "Raised (classify_prompt ''b'') ?e \<in> set (added ?w (snd ?run))"
    by code_simp
  have run: "?run = (fst ?run, snd ?run)"
    by simp
  note abort = remote_error_aborts_run
    [where res = "fst ?run" and w' = "snd ?run" and e = ?e and m = "classify_prompt ''b''",
     THEN conjunct1, THEN mp, OF run, THEN conjunct2, THEN conjunct1, THEN mp, OF raised]
  have none: "files ?w ''out.csv'' = None"
    by (simp add: world_with_def)
  let ?v = "world_with ''email.txt'' two_emails"
  let ?mail = "process_emails ''email.txt'' ''out.csv'' (scripted [''s1'', ''t1'', ''s2'', ''t2''])
                 email_delimiter ?v"
  have ok: "fst ?mail = Inr ()"
    by code_simp
  have mail: "?mail = (fst ?mail, snd ?mail)"
    by simp
  note written = remote_error_aborts_run
    [where res = "fst ?mail" and w' = "snd ?mail",
     THEN conjunct2, THEN mp, OF mail, THEN conjunct2, THEN conjunct2, THEN mp, OF ok]
  show ?thesis
    by (intro conjI)
       (rule r, rule raised, rule abort [THEN conjunct1],
        rule abort [THEN conjunct2, THEN conjunct1],
        rule abort [THEN conjunct2, THEN conjunct2, THEN conjunct1],
        rule none, rule ok, rule written)
qed

text \<open>
  Claim C8, as amended. In the review pipeline every run, whatever its result, is a
  number \<open>k\<close> of complete rounds, each the three calls of one record followed by a pause
  of 2 time units, and then nothing more, the writing of the file, or the calls of one more
  record up to a call that raised. So the orchestrator pauses for 2 after each record's
  row, the last record included, it pauses exactly \<open>k\<close> times, and it never pauses for
  another length. With \<open>n\<close> records read, \<open>k = n\<close> when the run got to the writing
  (whether the writing succeeded or raised) and \<open>k < n\<close> when a call raised; the run
  returns exactly when the trace ends with the writing. No run of the email pipeline
  pauses.
\<close>

theorem pause_after_every_review:
  "(process_reviews file_path csv_file chat_session delimiter w = (res, w') \<longrightarrow>
      (\<exists>k tail.
          map kind_of (added w w') = concat (replicate k [Call, Call, Call, Pause 2]) @ tail
        \<and> tail \<in> set [[], [Write], [Failure], [Call, Failure], [Call, Call, Failure]]
        \<and> length (filter (\<lambda>s. s = Pause 2) (map kind_of (added w w'))) = k
        \<and> (res = Inr () \<longleftrightarrow> tail = [Write])
        \<and> (\<forall>reviews. read_reviews file_path delimiter w = Inr reviews \<longrightarrow>
               (if tail \<in> set [[], [Write]] then k = length reviews else k < length reviews)))
      \<and> (\<forall>n. Pause n \<in> set (map kind_of (added w w')) \<longrightarrow> n = 2))
   \<and> (process_reviews file_path csv_file chat_session delimiter w = (Inr (), w')
      \<and> read_reviews file_path delimiter w = Inr reviews \<longrightarrow>
       map kind_of (added w w')
         = concat (replicate (length reviews) [Call, Call, Call, Pause 2]) @ [Write]
     \<and> length (filter (\<lambda>k. k = Pause 2) (map kind_of (added w w'))) = length reviews)
   \<and> (process_emails file_path csv_file chat_session delimiter w = (res, w') \<longrightarrow>
       Pause n \<notin> set (map kind_of (added w w')))"
proof (intro conjI impI)
  assume run: "process_reviews file_path csv_file chat_session delimiter w = (res, w')"
  from review_run_trace [OF run] obtain k tail where
    t: "map kind_of (added w w') = concat (replicate k [Call, Call, Call, Pause 2]) @ tail"
       "tail \<in> set [[], [Write], [Failure], [Call, Failure], [Call, Call, Failure]]"
       "res = Inr () \<longleftrightarrow> tail = [Write]"
       "\<forall>reviews. read_reviews file_path delimiter w = Inr reviews \<longrightarrow>
               (if tail \<in> set [[], [Write]] then k = length reviews else k < length reviews)"
    by blast
  from t(2) have np: "\<forall>n. Pause n \<notin> set tail" by auto
  then have "Pause 2 \<notin> set tail" by blast
  from pauses_in_trace [OF this, of k] t(1)
  have c: "length (filter (\<lambda>s. s = Pause 2) (map kind_of (added w w'))) = k" by simp
  from t c show "\<exists>k tail.
          map kind_of (added w w') = concat (replicate k [Call, Call, Call, Pause 2]) @ tail
        \<and> tail \<in> set [[], [Write], [Failure], [Call, Failure], [Call, Call, Failure]]
        \<and> length (filter (\<lambda>s. s = Pause 2) (map kind_of (added w w'))) = k
        \<and> (res = Inr () \<longleftrightarrow> tail = [Write])
        \<and> (\<forall>reviews. read_reviews file_path delimiter w = Inr reviews \<longrightarrow>
               (if tail \<in> set [[], [Write]] then k = length reviews else k < length reviews))"
    by blast
  from pause_lengths_in_trace [OF np, of _ k] t(1)
  show "\<forall>n. Pause n \<in> set (map kind_of (added w w')) \<longrightarrow> n = 2"
    by simp
next
  assume a: "process_reviews file_path csv_file chat_session delimiter w = (Inr (), w')
      \<and> read_reviews file_path delimiter w = Inr reviews"
  with review_run_added [of file_path csv_file chat_session delimiter w "()" w']
  show k: "map kind_of (added w w')
         = concat (replicate (length reviews) [Call, Call, Call, Pause 2]) @ [Write]"
    by auto
  show "length (filter (\<lambda>k. k = Pause 2) (map kind_of (added w w'))) = length reviews"
    unfolding k by (rule pauses_in_rounds)
next
  assume run: "process_emails file_path csv_file chat_session delimiter w = (res, w')"
  show "Pause n \<notin> set (map kind_of (added w w'))"
  proof (cases res)
    case (Inl e)
    with run email_abort_no_pause show ?thesis by simp
  next
    case (Inr u)
    with run have "process_emails file_path csv_file chat_session delimiter w = (Inr u, w')"
      by simp
    from email_run_added [OF this] obtain emails :: "string list" where
      k: "map kind_of (added w w') = concat (replicate (length emails) [Call, Call]) @ [Write]"
      by blast
    show ?thesis unfolding k by (rule no_pause_in_rounds)
  qed
qed

theorem pause_after_every_review_witness:
  "map kind_of
     (added (world_with ''reviews.txt'' five_reviews)
        (snd (process_reviews ''reviews.txt'' ''out.csv'' (scripted [''1'', ''2'', ''3'', ''4''])
                review_delimiter (world_with ''reviews.txt'' five_reviews))))
     = [Call, Call, Call, Pause 2, Call, Failure]
   \<and> (\<exists>k tail.
         map kind_of
           (added (world_with ''reviews.txt'' five_reviews)
              (snd (process_reviews ''reviews.txt'' ''out.csv'' (scripted [''1'', ''2'', ''3'', ''4''])
                      review_delimiter (world_with ''reviews.txt'' five_reviews))))
           = concat (replicate k [Call, Call, Call, Pause 2]) @ tail
       \<and> tail \<in> set [[], [Write], [Failure], [Call, Failure], [Call, Call, Failure]]
       \<and> length (filter (\<lambda>s. s = Pause 2)
            (map kind_of
               (added (world_with ''reviews.txt'' five_reviews)
                  (snd (process_reviews ''reviews.txt'' ''out.csv''
                          (scripted [''1'', ''2'', ''3'', ''4''])
                          review_delimiter (world_with ''reviews.txt'' five_reviews)))))) = k
       \<and> (fst (process_reviews ''reviews.txt'' ''out.csv'' (scripted [''1'', ''2'', ''3'', ''4''])
                 review_delimiter (world_with ''reviews.txt'' five_reviews)) = Inr ()
            \<longleftrightarrow> tail = [Write])
       \<and> (\<forall>reviews. read_reviews ''reviews.txt'' review_delimiter
                         (world_with ''reviews.txt'' five_reviews) = Inr reviews \<longrightarrow>
              (if tail \<in> set [[], [Write]] then k = length reviews else k < length reviews)))
   \<and> fst (process_reviews ''reviews.txt'' ''out.csv'' (always ''Positive'') review_delimiter
            (read_only_world ''reviews.txt'' scenario_1)) = Inl IOError
   \<and> map kind_of
       (added (read_only_world ''reviews.txt'' scenario_1)
          (snd (process_reviews ''reviews.txt'' ''out.csv'' (always ''Positive'') review_delimiter
                  (read_only_world ''reviews.txt'' scenario_1))))
       = [Call, Call, Call, Pause 2]
   \<and> process_reviews ''reviews.txt'' ''out.csv'' (always ''Positive'') review_delimiter
       (world_with ''reviews.txt'' two_reviews)
     = (Inr (), snd (process_reviews ''reviews.txt'' ''out.csv'' (always ''Positive'')
                       review_delimiter (world_with ''reviews.txt'' two_reviews)))
   \<and> read_reviews ''reviews.txt'' review_delimiter (world_with ''reviews.txt'' two_reviews)
       = Inr [''Product: Shoes\<newline>Review: Great fit'', ''Product: Hat\<newline>Review: Too small'']
   \<and> map kind_of
         (added (world_with ''reviews.txt'' two_reviews)
            (snd (process_reviews ''reviews.txt'' ''out.csv'' (always ''Positive'')
                    review_delimiter (world_with ''reviews.txt'' two_reviews))))
       = concat (replicate
                   (length [''Product: Shoes\<newline>Review: Great fit'',
                            ''Product: Hat\<newline>Review: Too small''])
                   [Call, Call, Call, Pause 2]) @ [Write]
   \<and> Pause 2 \<notin> set (map kind_of
         (added (world_with ''email.txt'' two_emails)
            (snd (process_emails ''email.txt'' ''out.csv'' (always ''ok'')
                    email_delimiter (world_with ''email.txt'' two_emails)))))"
proof -
  let ?w5 = "world_with ''reviews.txt'' five_reviews"
  let ?run5 = "process_reviews ''reviews.txt'' ''out.csv'' (scripted [''1'', ''2'', ''3'', ''4''])
                 review_delimiter ?w5"
  have k5: "map kind_of (added ?w5 (snd ?run5)) = [Call, Call, Call, Pause 2, Call, Failure]"
    by code_simp
  have run5: "?run5 = (fst ?run5, snd ?run5)"
    by simp
  note every = pause_after_every_review
    [where res = "fst ?run5" and w' = "snd ?run5", THEN conjunct1, THEN mp, OF run5,
     THEN conjunct1]
  let ?wr = "read_only_world ''reviews.txt'' scenario_1"
  let ?runr = "process_reviews ''reviews.txt'' ''out.csv'' (always ''Positive'') review_delimiter ?wr"
  have failed: "fst ?runr = Inl IOError"
    by code_simp
  have kr: "map kind_of (added ?wr (snd ?runr)) = [Call, Call, Call, Pause 2]"
    by code_simp
  let ?w = "world_with ''reviews.txt'' two_reviews"
  let ?run = "process_reviews ''reviews.txt'' ''out.csv'' (always ''Positive'') review_delimiter ?w"
  have "fst ?run = Inr ()"
    by code_simp
  then have run: "?run = (Inr (), snd ?run)"
    by (simp add: prod_eq_iff)
  have r: "read_reviews ''reviews.txt'' review_delimiter ?w
       = Inr [''Product: Shoes\<newline>Review: Great fit'', ''Product: Hat\<newline>Review: Too small'']"
    by code_simp
  note kinds = pause_after_every_review
    [where w' = "snd ?run", THEN conjunct2, THEN conjunct1, THEN mp, OF conjI [OF run r],
     THEN conjunct1]
  let ?v = "world_with ''email.txt'' two_emails"
  let ?mail = "process_emails ''email.txt'' ''out.csv'' (always ''ok'') email_delimiter ?v"
  have mail: "?mail = (fst ?mail, snd ?mail)"
    by simp
  note quiet = pause_after_every_review
    [where res = "fst ?mail" and n = 2, THEN conjunct2, THEN conjunct2, THEN mp, OF mail]
  show ?thesis
    by (intro conjI)
       (rule k5, rule every, rule failed, rule kr, rule run, rule r, rule kinds, rule quiet)
qed

text \<open>
  Claim C8 as stated has the pauses between records only, \<open>n - 1\<close> of them. A run over
  one record pauses once, after the row of that record and before the file is written.
\<close>

theorem pause_after_last_review:
  "read_reviews ''reviews.txt'' review_delimiter (world_with ''reviews.txt'' scenario_1)
     = Inr [''Product: Shoes\<newline>Review: Great fit'']
   \<and> fst (process_reviews ''reviews.txt'' ''out.csv'' (always ''Positive'') review_delimiter
            (world_with ''reviews.txt'' scenario_1)) = Inr ()
   \<and> map kind_of
         (added (world_with ''reviews.txt'' scenario_1)
            (snd (process_reviews ''reviews.txt'' ''out.csv'' (always ''Positive'')
                    review_delimiter (world_with ''reviews.txt'' scenario_1))))
       = [Call, Call, Call, Pause 2, Write]
   \<and> length (filter (\<lambda>k. k = Pause 2)
         (map kind_of
            (added (world_with ''reviews.txt'' scenario_1)
               (snd (process_reviews ''reviews.txt'' ''out.csv'' (always ''Positive'')
                       review_delimiter (world_with ''reviews.txt'' scenario_1))))))
       \<noteq> length [''Product: Shoes\<newline>Review: Great fit''] - 1"
  by code_simp

text \<open>
  Claim C9. The email pipeline translates into Telugu: \<^verbatim>\<open>translate_email\<close> sends
  exactly the message \<open>Translate the following text to Telugu: \<close> followed by its text,
  and in a run that completes the second call of record \<open>i\<close> is this message for the
  summary in row \<open>i\<close>, whose answer is the last field of the row; the header of that
  column is \<open>Summary (DE)\<close>.
\<close>

theorem translation_target_is_telugu:
  "translate_email text chat_session w
     = send_message chat_session (''Translate the following text to Telugu: '' @ text) w
   \<and> email_header ! 3 = ''Summary (DE)''
   \<and> (process_emails file_path csv_file chat_session delimiter w = (Inr (), w')
        \<and> read_emails file_path delimiter w = Inr emails \<longrightarrow>
       (\<exists>rows. files w' csv_file = Some (writerow email_header @ writerows rows)
          \<and> length rows = length emails
          \<and> (\<forall>i < length emails.
                added w w' ! (2 * i + 1)
                  = Sent (''Translate the following text to Telugu: '' @ rows ! i ! 2)
                         (rows ! i ! 3))))"
proof (intro conjI impI)
  show "translate_email text chat_session w
     = send_message chat_session (''Translate the following text to Telugu: '' @ text) w"
    by (simp add: translate_email_def translate_prompt_def)
  show "email_header ! 3 = ''Summary (DE)''"
    by (simp add: email_header_def)
next
  assume a: "process_emails file_path csv_file chat_session delimiter w = (Inr (), w')
        \<and> read_emails file_path delimiter w = Inr emails"
  with process_emails_Inr [of file_path csv_file chat_session delimiter w "()" w']
  obtain answers where
    len: "length answers = length emails"
    and w': "w' = w\<lparr>files := (files w)(csv_file \<mapsto>
                      writerow email_header @ writerows (map2 email_row emails answers)),
                  events := events w @ concat (map2 email_events emails answers)
                              @ [Wrote csv_file]\<rparr>"
    by auto
  let ?rows = "map2 email_row emails answers"
  let ?evs = "map2 email_events emails answers"
  from w' have f: "files w' csv_file = Some (writerow email_header @ writerows ?rows)"
    by simp
  from len have l: "length ?rows = length emails" by simp
  from w' have ad: "added w w' = concat ?evs @ [Wrote csv_file]"
    by simp
  have two: "\<forall>xs \<in> set ?evs. length xs = 2"
    using email_events_length by (auto simp del: email_events.simps)
  have "added w w' ! (2 * i + 1)
          = Sent (''Translate the following text to Telugu: '' @ ?rows ! i ! 2) (?rows ! i ! 3)"
    if i: "i < length emails" for i
  proof -
    from len i have li: "i < length ?evs" by simp
    from concat_pairs_length [OF two] have "length (concat ?evs) = 2 * length ?evs" .
    with li have "2 * i + 1 < length (concat ?evs)"
      by arith
    with ad have "added w w' ! (2 * i + 1) = concat ?evs ! (2 * i + 1)"
      by (simp only: nth_append if_True)
    also from concat_pairs_nth [OF two li] have "\<dots> = ?evs ! i ! 1" .
    also from len i have "?evs ! i = email_events (emails ! i) (answers ! i)"
      by simp
    also have "email_events (emails ! i) (answers ! i) ! 1
        = Sent (''Translate the following text to Telugu: '' @ ?rows ! i ! 2) (?rows ! i ! 3)"
    proof -
      from len i have r: "?rows ! i = email_row (emails ! i) (answers ! i)"
        by simp
      show ?thesis unfolding r by (rule email_translate_event)
    qed
    finally show ?thesis .
  qed
  with f l show "\<exists>rows. files w' csv_file = Some (writerow email_header @ writerows rows)
          \<and> length rows = length emails
          \<and> (\<forall>i < length emails.
                added w w' ! (2 * i + 1)
                  = Sent (''Translate the following text to Telugu: '' @ rows ! i ! 2)
                         (rows ! i ! 3))"
    by blast
qed

theorem translation_target_is_telugu_witness:
  "process_emails ''email.txt'' ''out.csv'' (scripted [''s1'', ''t1'', ''s2'', ''t2''])
       email_delimiter (world_with ''email.txt'' two_emails)
     = (Inr (), snd (process_emails ''email.txt'' ''out.csv'' (scripted [''s1'', ''t1'', ''s2'', ''t2''])
                       email_delimiter (world_with ''email.txt'' two_emails)))
   \<and> read_emails ''email.txt'' email_delimiter (world_with ''email.txt'' two_emails)
       = Inr [''From: a@x.com\<newline>To: b@x.com\<newline>Subject: Hi\<newline>Thanks for the order.'',
              ''From: c@x.com\<newline>See you.'']
   \<and> (\<exists>rows.
         files (snd (process_emails ''email.txt'' ''out.csv'' (scripted [''s1'', ''t1'', ''s2'', ''t2''])
                       email_delimiter (world_with ''email.txt'' two_emails))) ''out.csv''
           = Some (writerow email_header @ writerows rows)
         \<and> length rows
             = length [''From: a@x.com\<newline>To: b@x.com\<newline>Subject: Hi\<newline>Thanks for the order.'',
                       ''From: c@x.com\<newline>See you.'']
         \<and> (\<forall>i < length [''From: a@x.com\<newline>To: b@x.com\<newline>Subject: Hi\<newline>Thanks for the order.'',
                             ''From: c@x.com\<newline>See you.''].
               added (world_with ''email.txt'' two_emails)
                 (snd (process_emails ''email.txt'' ''out.csv'' (scripted [''s1'', ''t1'', ''s2'', ''t2''])
                         email_delimiter (world_with ''email.txt'' two_emails))) ! (2 * i + 1)
               = Sent (''Translate the following text to Telugu: '' @ rows ! i ! 2) (rows ! i ! 3)))
   \<and> added (world_with ''email.txt'' two_emails)
         (snd (process_emails ''email.txt'' ''out.csv'' (scripted [''s1'', ''t1'', ''s2'', ''t2''])
                 email_delimiter (world_with ''email.txt'' two_emails))) ! 3
       = Sent ''Translate the following text to Telugu: s2'' ''t2''"
proof -
  let ?v = "world_with ''email.txt'' two_emails"
  let ?mail = "process_emails ''email.txt'' ''out.csv'' (scripted [''s1'', ''t1'', ''s2'', ''t2''])
                 email_delimiter ?v"
  have "fst ?mail = Inr ()"
    by code_simp
  then have run: "?mail = (Inr (), snd ?mail)"
    by (simp add: prod_eq_iff)
  have r: "read_emails ''email.txt'' email_delimiter ?v
       = Inr [''From: a@x.com\<newline>To: b@x.com\<newline>Subject: Hi\<newline>Thanks for the order.'',
              ''From: c@x.com\<newline>See you.'']"
    by code_simp
  note sent = translation_target_is_telugu
    [where w' = "snd ?mail", THEN conjunct2, THEN conjunct2, THEN mp, OF conjI [OF run r]]
  have second: "added ?v (snd ?mail) ! 3
       = Sent ''Translate the following text to Telugu: s2'' ''t2''"
    by code_simp
  show ?thesis
    by (intro conjI) (rule run, rule r, rule sent, rule second)
qed

section \<open>Sentiment normalization\<close>

lemma analyze_sentiment_result:
  assumes "analyze_sentiment review_text chat_session w = (Inr (sentiment, reply), w')"
  shows "\<exists>r. chat_session (turns w)
              (classify_prompt review_text) = Inr r
           \<and> sentiment = normalize_sentiment (strip r)"
  using assms
  by (auto simp: analyze_sentiment_def send_message_def Let_def split: sum.splits prod.splits)

text \<open>
  Claim C1. Sentiment normalization is total and lands in the three labels: for every
  string the result is one of \<open>Positive\<close>, \<open>Negative\<close>, \<open>Neutral\<close>; the result is the
  input exactly when the input is one of the three labels, and otherwise it is
  \<open>Neutral\<close>. The sentiment that \<^verbatim>\<open>analyze_sentiment\<close> returns is the normalization
  of the trimmed answer to the classify message.
\<close>

theorem normalize_sentiment_three_valued:
  "normalize_sentiment s \<in> {''Positive'', ''Negative'', ''Neutral''}
   \<and> (normalize_sentiment s = s \<longleftrightarrow> s \<in> {''Positive'', ''Negative'', ''Neutral''})
   \<and> (s \<notin> {''Positive'', ''Negative'', ''Neutral''} \<longrightarrow> normalize_sentiment s = ''Neutral'')
   \<and> (analyze_sentiment review_text chat_session w = (Inr (sentiment, reply), w') \<longrightarrow>
        sentiment \<in> {''Positive'', ''Negative'', ''Neutral''}
        \<and> (\<exists>r. chat_session (turns w)
                  (classify_prompt review_text) = Inr r
               \<and> sentiment = normalize_sentiment (strip r)))"
proof -
  have a: "normalize_sentiment x \<in> {''Positive'', ''Negative'', ''Neutral''}" for x
    by (simp add: normalize_sentiment_def)
  have b: "normalize_sentiment s = s \<longleftrightarrow> s \<in> {''Positive'', ''Negative'', ''Neutral''}"
    by (auto simp: normalize_sentiment_def)
  have c: "s \<notin> {''Positive'', ''Negative'', ''Neutral''} \<longrightarrow> normalize_sentiment s = ''Neutral''"
    by (simp add: normalize_sentiment_def)
  have d: "analyze_sentiment review_text chat_session w = (Inr (sentiment, reply), w') \<longrightarrow>
        sentiment \<in> {''Positive'', ''Negative'', ''Neutral''}
        \<and> (\<exists>r. chat_session (turns w)
                  (classify_prompt review_text) = Inr r
               \<and> sentiment = normalize_sentiment (strip r))"
  proof
    assume run: "analyze_sentiment review_text chat_session w = (Inr (sentiment, reply), w')"
    from analyze_sentiment_result [OF run] obtain r where
      r: "chat_session (turns w)
            (classify_prompt review_text) = Inr r"
         "sentiment = normalize_sentiment (strip r)"
      by blast
    from r(2) a have "sentiment \<in> {''Positive'', ''Negative'', ''Neutral''}" by simp
    with r show "sentiment \<in> {''Positive'', ''Negative'', ''Neutral''}
        \<and> (\<exists>r. chat_session (turns w)
                  (classify_prompt review_text) = Inr r
               \<and> sentiment = normalize_sentiment (strip r))"
      by blast
  qed
  from a b c d show ?thesis by blast
qed

theorem normalize_sentiment_three_valued_witness:
  "''Pretty good!'' \<notin> {''Positive'', ''Negative'', ''Neutral''}
   \<and> normalize_sentiment ''Pretty good!'' = ''Neutral''
   \<and> normalize_sentiment ''Negative'' = ''Negative''
   \<and> fst (analyze_sentiment ''Great fit'' (scripted ['' Pretty good! '', ''Thanks!''])
            (world_with ''reviews.txt'' [])) = Inr (''Neutral'', ''Thanks!'')
   \<and> (\<exists>r. scripted ['' Pretty good! '', ''Thanks!''] (turns (world_with ''reviews.txt'' []))
              (classify_prompt ''Great fit'') = Inr r
          \<and> ''Neutral'' = normalize_sentiment (strip r))"
proof -
  let ?run = "analyze_sentiment ''Great fit'' (scripted ['' Pretty good! '', ''Thanks!''])
                (world_with ''reviews.txt'' [])"
  have res: "fst ?run = Inr (''Neutral'', ''Thanks!'')"
    by code_simp
  then have run: "?run = (Inr (''Neutral'', ''Thanks!''), snd ?run)"
    by (simp add: prod_eq_iff)
  have out: "''Pretty good!'' \<notin> {''Positive'', ''Negative'', ''Neutral''}"
    by simp
  note bad = normalize_sentiment_three_valued
         [where s = "''Pretty good!''" and review_text = "''Great fit''"
            and chat_session = "scripted ['' Pretty good! '', ''Thanks!'']"
            and w = "world_with ''reviews.txt'' []" and sentiment = "''Neutral''"
            and reply = "''Thanks!''" and w' = "snd ?run"]
  have neutral: "normalize_sentiment ''Pretty good!'' = ''Neutral''"
    by (rule mp [OF bad [THEN conjunct2, THEN conjunct2, THEN conjunct1] out])
  note answered = mp [OF bad [THEN conjunct2, THEN conjunct2, THEN conjunct2] run,
                      THEN conjunct2]
  note good = normalize_sentiment_three_valued [where s = "''Negative''"]
  have kept: "normalize_sentiment ''Negative'' = ''Negative''"
    by (rule iffD2 [OF good [THEN conjunct2, THEN conjunct1]]) simp
  show ?thesis
    by (intro conjI) (rule out, rule neutral, rule kept, rule res, rule answered)
qed

end
